theory Spec2Isabelle
  imports Complex_Main "HOL-Library.AList" "HOL-Library.Sublist" "HOL-Library.Log_Nat"
begin

section \<open>Data model\<close>

text \<open>
  The records follow the interfaces of \<^verbatim>\<open>rag/src/retrieval/vector-search.ts\<close> and
  \<^verbatim>\<open>rag/src/indexing/document-processor.ts\<close>. The field names \<^verbatim>\<open>id\<close>, \<^verbatim>\<open>text\<close> and
  \<^verbatim>\<open>section\<close> are reserved in Isabelle and carry a prime here. Scores are JavaScript
  numbers, that is binary64 doubles. Every finite double is a rational number, so a score is a
  \<^typ>\<open>rat\<close> that holds the double's value, and the arithmetic of the fusion engine rounds
  its results to doubles (\<open>binary64\<close> below). Counts (\<^verbatim>\<open>topK\<close>) are integers.
\<close>

record metadata =
  protocol :: string
  impact :: string
  title :: string
  section' :: string
  source_link :: string
  firm :: string

record SearchResult =
  id' :: string
  text' :: string
  score :: rat
  metadata :: metadata

record filters =
  impact_filter :: "string list option"
  protocol_filter :: "string list option"
  firm_filter :: "string list option"

record SearchOptions =
  topK :: "int option"
  minScore :: "rat option"
  filters :: "filters option"

subsection \<open>Binary64 arithmetic\<close>

text \<open>
  The result of a JavaScript division or addition is the exact result rounded to the nearest
  double, a tie going to the double with the even significand. For \<open>x > 0\<close> with
  \<open>2\<^sup>e \<le> x < 2\<^sup>e\<^sup>+\<^sup>1\<close> the doubles around \<open>x\<close> are the multiples of \<open>2\<^sup>e\<^sup>-\<^sup>5\<^sup>2\<close>; below
  \<open>2\<^sup>-\<^sup>1\<^sup>0\<^sup>2\<^sup>2\<close> they are the multiples of \<open>2\<^sup>-\<^sup>1\<^sup>0\<^sup>7\<^sup>4\<close>. Results beyond the largest double
  (infinities) are outside the model; the fused scores are sums of reciprocals of integers
  from 61 on.
\<close>

definition roundTiesToEven :: "rat \<Rightarrow> int" where
  "roundTiesToEven y =
     (let f = \<lfloor>y\<rfloor>; r = y - of_int f in
      if r < 1/2 then f else if 1/2 < r then f + 1 else if even f then f else f + 1)"

text \<open>The exponent \<open>e\<close> with \<open>2\<^sup>e \<le> x < 2\<^sup>e\<^sup>+\<^sup>1\<close>, for \<open>x > 0\<close>.\<close>

definition binade :: "rat \<Rightarrow> int" where
  "binade x = (case quotient_of x of (p, q) \<Rightarrow>
     (let d = bitlen p - bitlen q in if 2 powi d \<le> x then d else d - 1))"

definition binary64 :: "rat \<Rightarrow> rat" where
  "binary64 x =
     (if x = 0 then 0
      else (let e = max (binade \<bar>x\<bar>) (- 1022) in
            sgn x * of_int (roundTiesToEven (\<bar>x\<bar> * 2 powi (52 - e))) * 2 powi (e - 52)))"

section \<open>Fusion engine: \<^verbatim>\<open>mergeAndRerankResults\<close>\<close>

text \<open>
  \<^verbatim>\<open>scoreMap\<close> is a JavaScript \<^verbatim>\<open>Map\<close> from the document id to an object
  \<^verbatim>\<open>{ result, rrfScore }\<close>. A \<^verbatim>\<open>Map\<close> iterates in the order in which its keys were first
  inserted, and \<^verbatim>\<open>set\<close> on a key that is present replaces the value and keeps the key's
  place. That is an association list under \<^const>\<open>AList.update\<close>.
\<close>

type_synonym scoreEntry = "SearchResult \<times> rat"
type_synonym scoreMap = "(string \<times> scoreEntry) list"

definition rrf_k :: nat where
  "rrf_k = 60"

text \<open>
  \<^verbatim>\<open>1 / (k + rank + 1)\<close>: the sum \<^verbatim>\<open>k + rank + 1\<close> is a small integer and exact, the quotient
  is rounded.
\<close>

definition rrfScore :: "nat \<Rightarrow> rat" where
  "rrfScore rank = binary64 (1 / of_nat (rrf_k + rank + 1))"

text \<open>The body of \<^verbatim>\<open>vectorResults.forEach((result, rank) => ...)\<close>: an unconditional \<^verbatim>\<open>set\<close>.\<close>

definition vectorStep :: "nat \<times> SearchResult \<Rightarrow> scoreMap \<Rightarrow> scoreMap" where
  "vectorStep = (\<lambda>(rank, result) m. AList.update (id' result) (result, rrfScore rank) m)"

text \<open>
  The body of \<^verbatim>\<open>keywordResults.forEach((result, rank) => ...)\<close>: when the key is present the
  stored object's \<^verbatim>\<open>rrfScore\<close> is increased in place by \<^verbatim>\<open>+=\<close>, a double addition;
  otherwise a new entry is appended.
\<close>

definition keywordStep :: "nat \<times> SearchResult \<Rightarrow> scoreMap \<Rightarrow> scoreMap" where
  "keywordStep = (\<lambda>(rank, result) m.
     (case map_of m (id' result) of
        Some (existing, s) \<Rightarrow>
          AList.update (id' result) (existing, binary64 (s + rrfScore rank)) m
      | None \<Rightarrow> AList.update (id' result) (result, rrfScore rank) m))"

definition buildScoreMap :: "SearchResult list \<Rightarrow> SearchResult list \<Rightarrow> scoreMap" where
  "buildScoreMap vectorResults keywordResults =
     fold keywordStep (enumerate 0 keywordResults)
       (fold vectorStep (enumerate 0 vectorResults) [])"

text \<open>
  \<^verbatim>\<open>Array.prototype.slice(0, end)\<close>: a negative \<^verbatim>\<open>end\<close> counts from the end of the array.
\<close>

definition slice0 :: "'a list \<Rightarrow> int \<Rightarrow> 'a list" where
  "slice0 xs end = (if end < 0 then take (length xs - nat (- end)) xs else take (nat end) xs)"

text \<open>
  \<^verbatim>\<open>.sort((a, b) => b.rrfScore - a.rrfScore)\<close>: \<^verbatim>\<open>Array.prototype.sort\<close> is a stable sort
  (ECMAScript 2019), here by descending \<^verbatim>\<open>rrfScore\<close>: the difference of two doubles is
  zero exactly when they are equal and has the sign of their order. \<^const>\<open>sort_key\<close> is the
  stable insertion sort of the list library, ascending in its key, so the key is the negated
  score.
\<close>

definition sortByRrfDesc :: "scoreEntry list \<Rightarrow> scoreEntry list" where
  "sortByRrfDesc items = sort_key (\<lambda>item. - snd item) items"

definition toResult :: "scoreEntry \<Rightarrow> SearchResult" where
  "toResult = (\<lambda>(result, s). result\<lparr>score := s\<rparr>)"

definition mergeAndRerankResults ::
  "SearchResult list \<Rightarrow> SearchResult list \<Rightarrow> int \<Rightarrow> SearchResult list" where
  "mergeAndRerankResults vectorResults keywordResults topK' =
     map toResult
       (slice0 (sortByRrfDesc (map snd (buildScoreMap vectorResults keywordResults))) topK')"

subsection \<open>Vocabulary of the fusion claims\<close>









text \<open>
  The order in which a \<^verbatim>\<open>Map\<close> holds keys that are set one after the other: each key at
  the place of its first insertion.
\<close>

definition addKey :: "string \<Rightarrow> string list \<Rightarrow> string list" where
  "addKey k acc = (if k \<in> set acc then acc else acc @ [k])"

definition insertionOrder :: "string list \<Rightarrow> string list" where
  "insertionOrder ks = fold addKey ks []"

text \<open>The position of the first occurrence of a key in a list; the length when it is absent.\<close>

fun indexOf :: "'a list \<Rightarrow> 'a \<Rightarrow> nat" where
  "indexOf [] a = 0"
| "indexOf (x # xs) a = (if x = a then 0 else Suc (indexOf xs a))"

text \<open>Every entry of the accumulator is stored under the identifier of its own result.\<close>

definition entriesOk :: "scoreMap \<Rightarrow> bool" where
  "entriesOk m = (\<forall>(k, r, s) \<in> set m. id' r = k)"


text \<open>
  The order a stable sort by the key \<open>f\<close> leaves: smaller key first, and among equal keys
  the element that stood earlier in the input.
\<close>

definition before :: "('a \<Rightarrow> 'k) \<Rightarrow> ('a \<Rightarrow> 'b::linorder) \<Rightarrow> 'a list \<Rightarrow> 'a \<Rightarrow> 'a \<Rightarrow> bool" where
  "before g f xs a b \<longleftrightarrow>
     f a < f b \<or> (f a = f b \<and> indexOf (map g xs) (g a) < indexOf (map g xs) (g b))"

text \<open>
  The order of two fused results: the higher fused score first, and among equal scores the
  document whose key the accumulator received earlier.
\<close>

definition fusedBefore :: "string list \<Rightarrow> SearchResult \<Rightarrow> SearchResult \<Rightarrow> bool" where
  "fusedBefore order a b \<longleftrightarrow>
     score b < score a \<or> (score a = score b \<and> indexOf order (id' a) < indexOf order (id' b))"

section \<open>Retrievers and orchestrator\<close>

subsection \<open>The document store and the embedding service\<close>

text \<open>
  The schema of \<^verbatim>\<open>data/src/models/audit-finding.model.ts\<close>: the interfaces \<^verbatim>\<open>IChunk\<close> and
  \<^verbatim>\<open>IAuditFinding\<close>. Optional fields are options; dates are numbers of milliseconds. The
  names \<^verbatim>\<open>text\<close>, \<^verbatim>\<open>chunk_index\<close>, \<^verbatim>\<open>metadata\<close>, \<^verbatim>\<open>section\<close>, \<^verbatim>\<open>impact\<close>, \<^verbatim>\<open>protocol\<close>,
  \<^verbatim>\<open>title\<close>, \<^verbatim>\<open>source_link\<close>, \<^verbatim>\<open>id\<close> and \<^verbatim>\<open>embedding\<close> are taken by the records above or
  reserved, so these fields carry the prefix \<open>ichunk_\<close> or \<open>finding_\<close>; \<open>doc_id\<close> is the
  \<^verbatim>\<open>_id\<close> of the stored document, which the pipelines project as \<^verbatim>\<open>id\<close>. The schema
  restricts \<^verbatim>\<open>impact\<close> to the strings LOW, MEDIUM, HIGH and CRITICAL.
\<close>

record IChunkMetadata =
  ichunk_section :: string
  ichunk_impact :: string
  ichunk_protocol :: string

record IChunk =
  ichunk_text :: string
  ichunk_embedding :: "rat list option"
  ichunk_index :: nat
  ichunk_metadata :: IChunkMetadata

record IAuditFinding =
  doc_id :: string
  finding_id :: int
  kind :: string
  auditfirm_id :: int
  finding_impact :: string
  finders_count :: int
  protocol_id :: int
  finding_title :: string
  content :: string
  summary :: string
  report_date :: int
  contest_link :: string
  sponsor_name :: string
  quality_score :: rat
  general_score :: rat
  finding_source_link :: string
  firm_name :: string
  protocol_name :: string
  slug :: string
  finding_embedding :: "rat list option"
  chunks :: "IChunk list option"
  indexed_at :: "int option"

datatype error = EmbeddingFailure | RetrievalFailure

type_synonym embedding = "rat list"

text \<open>The \<^verbatim>\<open>$vectorSearch\<close> stage that \<^verbatim>\<open>search\<close> sends to the store.\<close>

record vectorSearchStage =
  vs_index :: string
  vs_path :: string
  queryVector :: embedding
  numCandidates :: int
  vs_limit :: int

text \<open>
  The collaborators: the embedding service, the store's similarity index (the documents a
  \<^verbatim>\<open>$vectorSearch\<close> stage yields, each with its \<^verbatim>\<open>vectorSearchScore\<close>) and the store's text
  index (the documents matching \<^verbatim>\<open>$text: { $search: query }\<close>, each with its \<^verbatim>\<open>textScore\<close>).
  Each of them may fail; the retrievers have no \<^verbatim>\<open>try\<close>, so a failure is the result of the
  call.
\<close>

record collaborators =
  generateEmbedding :: "string \<Rightarrow> error + embedding"
  similarityIndex :: "vectorSearchStage \<Rightarrow> error + (IAuditFinding \<times> rat) list"
  textIndex :: "string \<Rightarrow> error + (IAuditFinding \<times> rat) list"

subsection \<open>Options and their defaults\<close>

text \<open>The destructuring defaults \<^verbatim>\<open>{ topK = 5, minScore = 0.7, filters = {} } = options\<close>.\<close>

definition topKOf :: "SearchOptions \<Rightarrow> int" where
  "topKOf options = (case topK options of None \<Rightarrow> 5 | Some k \<Rightarrow> k)"

definition minScoreOf :: "SearchOptions \<Rightarrow> rat" where
  "minScoreOf options = (case minScore options of None \<Rightarrow> 7/10 | Some m \<Rightarrow> m)"

definition filtersOf :: "SearchOptions \<Rightarrow> filters" where
  "filtersOf options =
     (case filters options of
        None \<Rightarrow> \<lparr>impact_filter = None, protocol_filter = None, firm_filter = None\<rparr>
      | Some f \<Rightarrow> f)"

subsection \<open>Aggregation stages\<close>

text \<open>A document after \<^verbatim>\<open>$unwind\<close>: the parent, one chunk (or none), and the score field.\<close>

record row =
  row_doc :: IAuditFinding
  row_chunk :: "IChunk option"
  row_score :: rat

text \<open>
  \<^verbatim>\<open>$unwind: '$chunks'\<close> emits one row per chunk and drops a document whose array is absent
  or empty; with \<^verbatim>\<open>preserveNullAndEmptyArrays: true\<close> such a document is kept as a single row
  without the \<^verbatim>\<open>chunks\<close> field. The score set by \<^verbatim>\<open>$addFields: { score: { $meta: ... } }\<close>
  is the score the index attached to the document, so every row of a document carries it.
\<close>

definition unwindOne :: "bool \<Rightarrow> IAuditFinding \<times> rat \<Rightarrow> row list" where
  "unwindOne preserveNullAndEmptyArrays = (\<lambda>(d, s).
     (case chunks d of
        Some (c # cs) \<Rightarrow> map (\<lambda>ch. \<lparr>row_doc = d, row_chunk = Some ch, row_score = s\<rparr>) (c # cs)
      | _ \<Rightarrow> (if preserveNullAndEmptyArrays
              then [\<lparr>row_doc = d, row_chunk = None, row_score = s\<rparr>] else [])))"

definition unwind :: "bool \<Rightarrow> (IAuditFinding \<times> rat) list \<Rightarrow> row list" where
  "unwind preserveNullAndEmptyArrays docs = concat (map (unwindOne preserveNullAndEmptyArrays) docs)"

text \<open>\<^verbatim>\<open>if (filters.impact?.length) matchConditions.impact = { $in: filters.impact }\<close>\<close>

definition hasLength :: "string list option \<Rightarrow> bool" where
  "hasLength allow = (case allow of None \<Rightarrow> False | Some xs \<Rightarrow> length xs > 0)"

definition inAllowList :: "string list option \<Rightarrow> string \<Rightarrow> bool" where
  "inAllowList allow v = (case allow of None \<Rightarrow> True | Some xs \<Rightarrow> (if length xs > 0 then v \<in> set xs else True))"

definition matchConditions :: "filters \<Rightarrow> IAuditFinding \<Rightarrow> bool" where
  "matchConditions f d \<longleftrightarrow>
     inAllowList (impact_filter f) (finding_impact d)
     \<and> inAllowList (protocol_filter f) (protocol_name d)
     \<and> inAllowList (firm_filter f) (firm_name d)"

text \<open>
  \<^verbatim>\<open>buildFilterStages\<close>: no stage when no condition was set, otherwise one \<^verbatim>\<open>$match\<close> stage.
\<close>

definition buildFilterStages :: "filters \<Rightarrow> (row list \<Rightarrow> row list) list" where
  "buildFilterStages f =
     (if hasLength (impact_filter f) \<or> hasLength (protocol_filter f) \<or> hasLength (firm_filter f)
      then [filter (\<lambda>r. matchConditions f (row_doc r))] else [])"

definition runStages :: "(row list \<Rightarrow> row list) list \<Rightarrow> row list \<Rightarrow> row list" where
  "runStages stages rows = fold (\<lambda>stage rs. stage rs) stages rows"

text \<open>
  \<^verbatim>\<open>$sort: { score: -1 }\<close>. The store leaves the order of documents with equal scores open;
  the model sorts stably, and no theorem below depends on the order among equal scores.
\<close>

definition sortRowsDesc :: "row list \<Rightarrow> row list" where
  "sortRowsDesc rows = sort_key (\<lambda>r. - row_score r) rows"

definition sortDocsDesc :: "(IAuditFinding \<times> rat) list \<Rightarrow> (IAuditFinding \<times> rat) list" where
  "sortDocsDesc docs = sort_key (\<lambda>(d, s). - s) docs"

definition parentMetadata :: "IAuditFinding \<Rightarrow> string \<Rightarrow> metadata" where
  "parentMetadata d sec =
     \<lparr>protocol = protocol_name d, impact = finding_impact d, title = finding_title d,
      section' = sec, source_link = finding_source_link d, firm = firm_name d\<rparr>"

text \<open>
  The \<^verbatim>\<open>$project\<close> stage of \<^verbatim>\<open>search\<close>. Its rows come from an \<^verbatim>\<open>$unwind\<close> that keeps only
  documents with chunks; for a row without a chunk the two chunk fields would be absent, which
  the model renders as empty strings.
\<close>

definition projectVector :: "row \<Rightarrow> SearchResult" where
  "projectVector r =
     \<lparr>id' = doc_id (row_doc r),
      text' = (case row_chunk r of Some c \<Rightarrow> ichunk_text c | None \<Rightarrow> []),
      score = row_score r,
      metadata = parentMetadata (row_doc r)
        (case row_chunk r of Some c \<Rightarrow> ichunk_section (ichunk_metadata c) | None \<Rightarrow> [])\<rparr>"

text \<open>
  The \<^verbatim>\<open>$project\<close> stage of \<^verbatim>\<open>keywordSearch\<close>: \<^verbatim>\<open>$ifNull\<close> falls back to the summary and to
  the section name \<^verbatim>\<open>summary\<close>; \<^verbatim>\<open>$divide\<close> gives the double nearest to the score
  divided by 10.
\<close>

definition projectKeyword :: "row \<Rightarrow> SearchResult" where
  "projectKeyword r =
     \<lparr>id' = doc_id (row_doc r),
      text' = (case row_chunk r of Some c \<Rightarrow> ichunk_text c | None \<Rightarrow> summary (row_doc r)),
      score = binary64 (row_score r / 10),
      metadata = parentMetadata (row_doc r)
        (case row_chunk r of Some c \<Rightarrow> ichunk_section (ichunk_metadata c)
         | None \<Rightarrow> ''summary'')\<rparr>"

subsection \<open>Vector retriever: \<^verbatim>\<open>search\<close>\<close>

definition vectorSearchRequest :: "embedding \<Rightarrow> int \<Rightarrow> vectorSearchStage" where
  "vectorSearchRequest queryEmbedding k =
     \<lparr>vs_index = ''audit_findings_vector_index'', vs_path = ''chunks.embedding'',
      queryVector = queryEmbedding, numCandidates = k * 10, vs_limit = k\<rparr>"

text \<open>
  The stages after \<^verbatim>\<open>$vectorSearch\<close>, in the order of the pipeline: \<^verbatim>\<open>$unwind\<close>,
  \<^verbatim>\<open>$addFields\<close>, the filter stages, \<^verbatim>\<open>$match: { score: { $gte: minScore } }\<close>, \<^verbatim>\<open>$sort\<close>,
  \<^verbatim>\<open>$project\<close>, \<^verbatim>\<open>$limit: topK\<close>.
\<close>

definition vectorPostProcess ::
  "int \<Rightarrow> rat \<Rightarrow> filters \<Rightarrow> (IAuditFinding \<times> rat) list \<Rightarrow> SearchResult list" where
  "vectorPostProcess k minS f docs =
     take (nat k)
       (map projectVector
         (sortRowsDesc
           (filter (\<lambda>r. minS \<le> row_score r)
             (runStages (buildFilterStages f) (unwind False docs)))))"

text \<open>
  The store rejects a pipeline whose \<^verbatim>\<open>$limit\<close> is not a positive integer, before it runs any
  stage; \<^verbatim>\<open>aggregate\<close> then throws.
\<close>

definition search :: "collaborators \<Rightarrow> string \<Rightarrow> SearchOptions \<Rightarrow> error + SearchResult list" where
  "search env query options =
     (let k = topKOf options; minS = minScoreOf options; f = filtersOf options in
      case generateEmbedding env query of
        Inl e \<Rightarrow> Inl e
      | Inr queryEmbedding \<Rightarrow>
          if k \<le> 0 then Inl RetrievalFailure
          else (case similarityIndex env (vectorSearchRequest queryEmbedding k) of
                  Inl e \<Rightarrow> Inl e
                | Inr docs \<Rightarrow> Inr (vectorPostProcess k minS f docs)))"

subsection \<open>Keyword retriever: \<^verbatim>\<open>keywordSearch\<close>\<close>

text \<open>
  The stages in the order of the pipeline: \<^verbatim>\<open>$match\<close> (the text query and the filter
  conditions), \<^verbatim>\<open>$addFields\<close>, \<^verbatim>\<open>$sort\<close>, \<^verbatim>\<open>$limit: topK\<close>, \<^verbatim>\<open>$unwind\<close> with
  \<^verbatim>\<open>preserveNullAndEmptyArrays\<close>, \<^verbatim>\<open>$project\<close>.
\<close>

definition keywordLimited ::
  "int \<Rightarrow> filters \<Rightarrow> (IAuditFinding \<times> rat) list \<Rightarrow> (IAuditFinding \<times> rat) list" where
  "keywordLimited k f docs = take (nat k) (sortDocsDesc (filter (\<lambda>(d, s). matchConditions f d) docs))"

definition keywordSearch :: "collaborators \<Rightarrow> string \<Rightarrow> SearchOptions \<Rightarrow> error + SearchResult list" where
  "keywordSearch env query options =
     (let k = topKOf options; f = filtersOf options in
      if k \<le> 0 then Inl RetrievalFailure
      else (case textIndex env query of
              Inl e \<Rightarrow> Inl e
            | Inr docs \<Rightarrow> Inr (map projectKeyword (unwind True (keywordLimited k f docs)))))"

subsection \<open>Orchestrator: \<^verbatim>\<open>hybridSearch\<close>\<close>

text \<open>\<^verbatim>\<open>Math.ceil(topK * 1.5)\<close>\<close>

definition expandedTopK :: "int \<Rightarrow> int" where
  "expandedTopK k = \<lceil>of_int k * (3/2 :: rat)\<rceil>"

definition hybridSearch :: "collaborators \<Rightarrow> string \<Rightarrow> SearchOptions \<Rightarrow> error + SearchResult list" where
  "hybridSearch env query options =
     (let k = topKOf options in
      case search env query (options\<lparr>topK := Some (expandedTopK k)\<rparr>) of
        Inl e \<Rightarrow> Inl e
      | Inr vectorResults \<Rightarrow>
          (case keywordSearch env query options of
             Inl e \<Rightarrow> Inl e
           | Inr keywordResults \<Rightarrow> Inr (mergeAndRerankResults vectorResults keywordResults k)))"

subsection \<open>Vocabulary of the retrieval claims\<close>


section \<open>Chunker: \<^verbatim>\<open>DocumentProcessor\<close>\<close>

definition maxChunkSize :: nat where
  "maxChunkSize = 512"

definition chunkOverlap :: nat where
  "chunkOverlap = 50"

subsection \<open>Strings\<close>

text \<open>
  Strings are lists of 8-bit characters. The white space of \<^verbatim>\<open>\s\<close> and of \<^verbatim>\<open>trim\<close> is
  modelled within ASCII: space, tab, line feed, vertical tab, form feed and carriage return.
\<close>

definition isSpace :: "char \<Rightarrow> bool" where
  "isSpace c \<longleftrightarrow> c \<in> {CHR '' '', CHR 0x09, CHR 0x0A, CHR 0x0B, CHR 0x0C, CHR 0x0D}"

text \<open>The character class \<^verbatim>\<open>[.!?]\<close>.\<close>

definition isTerminator :: "char \<Rightarrow> bool" where
  "isTerminator c \<longleftrightarrow> c \<in> {CHR ''.'', CHR ''!'', CHR ''?''}"

text \<open>
  \<^verbatim>\<open>String.prototype.split\<close> on a regular expression \<^verbatim>\<open>/[...]+/\<close>: the separators are the
  maximal runs of characters of the class \<open>P\<close>; the pieces between them are returned, the
  separators are not. A separator at the start or at the end leaves an empty piece there, and
  the empty string gives one empty piece. A separator character that is followed by another
  one belongs to the same run.
\<close>

fun splitRuns :: "(char \<Rightarrow> bool) \<Rightarrow> string \<Rightarrow> string list" where
  "splitRuns P [] = [[]]"
| "splitRuns P (c # cs) =
     (if P c then (if cs \<noteq> [] \<and> P (hd cs) then splitRuns P cs else [] # splitRuns P cs)
      else (case splitRuns P cs of
              [] \<Rightarrow> [[c]]
            | piece # pieces \<Rightarrow> (c # piece) # pieces))"

text \<open>\<^verbatim>\<open>String.prototype.trim\<close>\<close>

definition trim :: "string \<Rightarrow> string" where
  "trim s = rev (dropWhile isSpace (rev (dropWhile isSpace s)))"

text \<open>\<^verbatim>\<open>Array.prototype.join(' ')\<close>\<close>

fun joinSpace :: "string list \<Rightarrow> string" where
  "joinSpace [] = []"
| "joinSpace [s] = s"
| "joinSpace (s # t # rest) = s @ '' '' @ joinSpace (t # rest)"

subsection \<open>\<^verbatim>\<open>splitIntoSentences\<close>, \<^verbatim>\<open>estimateTokens\<close>, \<^verbatim>\<open>getOverlapSentences\<close>\<close>

definition splitIntoSentences :: "string \<Rightarrow> string list" where
  "splitIntoSentences text = filter (\<lambda>s. length s > 0) (map trim (splitRuns isTerminator text))"

text \<open>
  \<^verbatim>\<open>Math.ceil(text.split(/\s+/).length * 1.3)\<close>. The count \<open>n\<close> of pieces is below
  \<open>2\<^sup>3\<^sup>0\<close>, the bound on the length of a string, and the double nearest to 1.3 exceeds 1.3
  by less than \<open>5 \<times> 10\<^sup>-\<^sup>1\<^sup>7\<close>. So the double product \<open>n * 1.3\<close> is \<open>13 n / 10\<close>
  itself when that is an integer, and otherwise differs from it by far less than the distance
  of \<open>13 n / 10\<close> to the nearest integer, which is at least \<open>1/10\<close>: the ceiling is that of
  the exact product.
\<close>

definition estimateTokens :: "string \<Rightarrow> nat" where
  "estimateTokens text = nat \<lceil>of_nat (length (splitRuns isSpace text)) * (13/10 :: rat)\<rceil>"

text \<open>
  The loop of \<^verbatim>\<open>getOverlapSentences\<close> runs from the last sentence to the first and stops at
  the first sentence that would exceed the budget; \<^verbatim>\<open>unshift\<close> puts a sentence in front.
\<close>

fun overlapLoop :: "string list \<Rightarrow> nat \<Rightarrow> string list \<Rightarrow> string list" where
  "overlapLoop [] overlapSize overlap = overlap"
| "overlapLoop (sentence # earlier) overlapSize overlap =
     (let sentenceSize = estimateTokens sentence in
      if overlapSize + sentenceSize > chunkOverlap then overlap
      else overlapLoop earlier (overlapSize + sentenceSize) (sentence # overlap))"

definition getOverlapSentences :: "string list \<Rightarrow> string list" where
  "getOverlapSentences sentences = overlapLoop (rev sentences) 0 []"

subsection \<open>\<^verbatim>\<open>chunkText\<close>\<close>

text \<open>
  The \<^verbatim>\<open>for\<close> loop over the sentences, with its three variables \<^verbatim>\<open>chunks\<close>,
  \<^verbatim>\<open>currentChunk\<close> and \<^verbatim>\<open>currentSize\<close>; the first equation is the code after the loop.
\<close>

fun chunkLoop :: "string list \<Rightarrow> string list \<Rightarrow> string list \<Rightarrow> nat \<Rightarrow> string list" where
  "chunkLoop [] chunks' currentChunk currentSize =
     (if length currentChunk > 0 then chunks' @ [joinSpace currentChunk] else chunks')"
| "chunkLoop (sentence # rest) chunks' currentChunk currentSize =
     (let sentenceSize = estimateTokens sentence in
      if currentSize + sentenceSize > maxChunkSize \<and> length currentChunk > 0
      then (let overlapSentences = getOverlapSentences currentChunk in
            chunkLoop rest (chunks' @ [joinSpace currentChunk]) (overlapSentences @ [sentence])
              (estimateTokens (joinSpace overlapSentences) + sentenceSize))
      else chunkLoop rest chunks' (currentChunk @ [sentence]) (currentSize + sentenceSize))"

definition chunkText :: "string \<Rightarrow> string list" where
  "chunkText text = chunkLoop (splitIntoSentences text) [] [] 0"

text \<open>
  The same loop, recording each closed chunk as the list of its sentences rather than as
  their \<^verbatim>\<open>join\<close>.
\<close>

fun groupLoop :: "string list \<Rightarrow> string list list \<Rightarrow> string list \<Rightarrow> nat \<Rightarrow> string list list" where
  "groupLoop [] groups currentChunk currentSize =
     (if length currentChunk > 0 then groups @ [currentChunk] else groups)"
| "groupLoop (sentence # rest) groups currentChunk currentSize =
     (let sentenceSize = estimateTokens sentence in
      if currentSize + sentenceSize > maxChunkSize \<and> length currentChunk > 0
      then (let overlapSentences = getOverlapSentences currentChunk in
            groupLoop rest (groups @ [currentChunk]) (overlapSentences @ [sentence])
              (estimateTokens (joinSpace overlapSentences) + sentenceSize))
      else groupLoop rest groups (currentChunk @ [sentence]) (currentSize + sentenceSize))"

definition chunkGroups :: "string list \<Rightarrow> string list list" where
  "chunkGroups sentences = groupLoop sentences [] [] 0"

subsection \<open>\<^verbatim>\<open>extractSections\<close>\<close>

text \<open>
  A match of \<^verbatim>\<open>/\*\*([^*]+)\*\*/\<close> at the start of a string: two stars, the longest run of
  characters other than a star, which must not be empty, and two stars. A shorter run cannot
  match, since the character after it is not a star. The result is the captured name and the
  rest of the string after the match.
\<close>

definition matchHeader :: "string \<Rightarrow> (string \<times> string) option" where
  "matchHeader s =
     (case s of
        a # b # r \<Rightarrow>
          (if a = CHR ''*'' \<and> b = CHR ''*''
           then (let name = takeWhile (\<lambda>c. c \<noteq> CHR ''*'') r;
                     after = dropWhile (\<lambda>c. c \<noteq> CHR ''*'') r in
                 if name \<noteq> [] \<and> take 2 after = ''**'' then Some (name, drop 2 after) else None)
           else None)
      | _ \<Rightarrow> None)"

lemma matchHeader_shorter:
  assumes "matchHeader s = Some (name, rest)"
  shows "length rest < length s"
proof -
  from assms obtain a b r
    where s: "s = a # b # r" and rest: "rest = drop 2 (dropWhile (\<lambda>c. c \<noteq> CHR ''*'') r)"
    by (auto simp: matchHeader_def Let_def split: list.splits if_splits)
  have "length rest \<le> length (dropWhile (\<lambda>c. c \<noteq> CHR ''*'') r)"
    by (simp add: rest)
  also have "\<dots> \<le> length r"
    by (rule length_dropWhile_le)
  finally show ?thesis by (simp add: s)
qed

text \<open>
  \<^verbatim>\<open>content.split(headerRegex)\<close> with a capture group: the pieces between the matches,
  and after each piece but the last the captured name of the match that ended it.
\<close>

function splitHeaders :: "string \<Rightarrow> string \<Rightarrow> string list" where
  "splitHeaders piece [] = [piece]"
| "splitHeaders piece (c # cs) =
     (case matchHeader (c # cs) of
        Some (name, rest) \<Rightarrow> piece # name # splitHeaders [] rest
      | None \<Rightarrow> splitHeaders (piece @ [c]) cs)"
  by pat_completeness auto
termination
  by (relation "measure (\<lambda>(piece, s). length s)") (auto dest: matchHeader_shorter)

text \<open>
  The loop \<^verbatim>\<open>for (let i = 1; i < parts.length; i += 2)\<close> over the parts after the first: a
  name and the body that follows it; a section whose trimmed body is empty is skipped.
\<close>

fun sectionsOf :: "string list \<Rightarrow> (string \<times> string) list" where
  "sectionsOf (name # body # rest) =
     (let sectionName = trim name; sectionContent = trim body in
      if sectionContent \<noteq> [] then (sectionName, sectionContent) # sectionsOf rest
      else sectionsOf rest)"
| "sectionsOf [name] = []"
| "sectionsOf [] = []"

definition extractSections :: "string \<Rightarrow> (string \<times> string) list" where
  "extractSections content' =
     (let sections = sectionsOf (tl (splitHeaders [] content')) in
      if length sections = 0 then [(''content'', content')] else sections)"

subsection \<open>\<^verbatim>\<open>enrichChunkContext\<close> and \<^verbatim>\<open>processAuditFinding\<close>\<close>

text \<open>The interface \<^verbatim>\<open>ProcessedChunk\<close> of the document processor.\<close>

record ProcessedChunk =
  chunk_text :: string
  chunk_index :: nat
  chunk_metadata :: metadata

definition contextPrefix :: "IAuditFinding \<Rightarrow> string \<Rightarrow> string" where
  "contextPrefix finding sec =
     ''Protocol: '' @ protocol_name finding @ [CHR 0x0A]
     @ ''Issue: '' @ finding_title finding @ [CHR 0x0A]
     @ ''Impact: '' @ finding_impact finding @ [CHR 0x0A]
     @ ''Section: '' @ sec @ [CHR 0x0A]
     @ ''Audit Firm: '' @ firm_name finding @ [CHR 0x0A]"

definition enrichChunkContext :: "string \<Rightarrow> IAuditFinding \<Rightarrow> string \<Rightarrow> string" where
  "enrichChunkContext chunk finding sec = contextPrefix finding sec @ chunk"

text \<open>The inner \<^verbatim>\<open>forEach\<close>: one \<^verbatim>\<open>chunks.push\<close> with \<^verbatim>\<open>chunk_index: chunks.length\<close>.\<close>

definition pushChunk :: "IAuditFinding \<Rightarrow> string \<Rightarrow> string \<Rightarrow> ProcessedChunk list \<Rightarrow> ProcessedChunk list" where
  "pushChunk finding sectionName chunk chunks' =
     chunks' @ [\<lparr>chunk_text = enrichChunkContext chunk finding sectionName,
                 chunk_index = length chunks',
                 chunk_metadata = parentMetadata finding sectionName\<rparr>]"

definition processSection :: "IAuditFinding \<Rightarrow> string \<times> string \<Rightarrow> ProcessedChunk list \<Rightarrow> ProcessedChunk list" where
  "processSection finding = (\<lambda>(sectionName, sectionContent) chunks'.
     fold (pushChunk finding sectionName) (chunkText sectionContent) chunks')"

definition processAuditFinding :: "IAuditFinding \<Rightarrow> ProcessedChunk list" where
  "processAuditFinding finding =
     fold (processSection finding) (extractSections (content finding)) []"

text \<open>A chunk's text without the header that \<^verbatim>\<open>enrichChunkContext\<close> put in front.\<close>

definition stripHeader :: "IAuditFinding \<Rightarrow> ProcessedChunk \<Rightarrow> string" where
  "stripHeader finding c =
     drop (length (contextPrefix finding (section' (chunk_metadata c)))) (chunk_text c)"

subsection \<open>Vocabulary of the chunking claims\<close>

text \<open>The sum of the estimates of the sentences, as \<^verbatim>\<open>getOverlapSentences\<close> adds them up.\<close>

definition tokenSum :: "string list \<Rightarrow> nat" where
  "tokenSum sentences = sum_list (map estimateTokens sentences)"

text \<open>
  A chunk follows another one of the same section: it starts with the overlap of the earlier
  chunk and goes on with at least one further sentence.
\<close>

definition follows :: "string list \<Rightarrow> string list \<Rightarrow> bool" where
  "follows g h \<longleftrightarrow> (\<exists>new. new \<noteq> [] \<and> h = getOverlapSentences g @ new)"

text \<open>
  The sentences of a sequence of chunks with the overlap removed: the first chunk, and of every
  later chunk what comes after the overlap of its predecessor.
\<close>

fun newSentences :: "string list \<Rightarrow> string list list \<Rightarrow> string list" where
  "newSentences prev [] = []"
| "newSentences prev (g # gs) = drop (length (getOverlapSentences prev)) g @ newSentences g gs"

definition withoutOverlap :: "string list list \<Rightarrow> string list" where
  "withoutOverlap gs = (case gs of [] \<Rightarrow> [] | g # rest \<Rightarrow> g @ newSentences g rest)"

text \<open>A sentence as \<^verbatim>\<open>splitIntoSentences\<close> leaves it: not empty, no white space at either end.\<close>

definition clean :: "string \<Rightarrow> bool" where
  "clean s \<longleftrightarrow> s \<noteq> [] \<and> \<not> isSpace (hd s) \<and> \<not> isSpace (last s)"

section \<open>Example data\<close>

subsection \<open>Example candidates\<close>

definition exMeta :: metadata where
  "exMeta = \<lparr>protocol = ''Aave'', impact = ''HIGH'', title = ''Reentrancy in withdraw'',
     section' = ''content'', source_link = ''https://example.org/1'', firm = ''Firm''\<rparr>"

text \<open>Two chunks of the document \<^verbatim>\<open>a\<close>, and single chunks of \<^verbatim>\<open>b\<close>, \<^verbatim>\<open>d1\<close> and \<^verbatim>\<open>d2\<close>.\<close>

definition exA1 :: SearchResult where
  "exA1 = \<lparr>id' = ''a'', text' = ''first chunk of a'', score = 9/10, metadata = exMeta\<rparr>"

definition exA2 :: SearchResult where
  "exA2 = \<lparr>id' = ''a'', text' = ''second chunk of a'', score = 8/10, metadata = exMeta\<rparr>"

definition exB :: SearchResult where
  "exB = \<lparr>id' = ''b'', text' = ''only chunk of b'', score = 3/10, metadata = exMeta\<rparr>"

definition exD1 :: SearchResult where
  "exD1 = \<lparr>id' = ''d1'', text' = ''chunk of d1'', score = 9/10, metadata = exMeta\<rparr>"


subsection \<open>Example store\<close>

definition exChunk :: "string \<Rightarrow> nat \<Rightarrow> IChunk" where
  "exChunk t i = \<lparr>ichunk_text = t, ichunk_embedding = None, ichunk_index = i,
     ichunk_metadata = \<lparr>ichunk_section = ''content'', ichunk_impact = ''HIGH'',
       ichunk_protocol = ''Aave''\<rparr>\<rparr>"

definition exDocA :: IAuditFinding where
  "exDocA = \<lparr>doc_id = ''a'', finding_id = 1, kind = ''GIT'', auditfirm_id = 7,
     finding_impact = ''HIGH'', finders_count = 1, protocol_id = 3,
     finding_title = ''Reentrancy in withdraw'', content = ''Reentrancy found. Fix it.'',
     summary = ''summary of a'', report_date = 0, contest_link = [], sponsor_name = [],
     quality_score = 4, general_score = 4,
     finding_source_link = ''https://example.org/1'', firm_name = ''Firm'',
     protocol_name = ''Aave'', slug = ''reentrancy-in-withdraw'', finding_embedding = None,
     chunks = Some [exChunk ''first chunk of a'' 0, exChunk ''second chunk of a'' 1],
     indexed_at = None\<rparr>"

definition exDocB :: IAuditFinding where
  "exDocB = exDocA\<lparr>doc_id := ''b'', finding_id := 2, finding_impact := ''LOW'',
     finding_title := ''Rounding'', content := ''Rounding error'', summary := ''summary of b'',
     finding_source_link := ''https://example.org/2'', protocol_name := ''Compound'',
     slug := ''rounding'', chunks := None\<rparr>"

text \<open>
  A store of the documents \<^verbatim>\<open>a\<close> and \<^verbatim>\<open>b\<close>. Its similarity index answers with the nearest
  documents up to the \<^verbatim>\<open>limit\<close> of the request.
\<close>

definition exEnv :: collaborators where
  "exEnv = \<lparr>generateEmbedding = (\<lambda>q. Inr [1, 0]),
     similarityIndex = (\<lambda>st. Inr (take (nat (vs_limit st)) [(exDocA, 9/10), (exDocB, 8/10)])),
     textIndex = (\<lambda>q. Inr [(exDocB, 3), (exDocA, 15)])\<rparr>"

definition exOptions :: SearchOptions where
  "exOptions = \<lparr>topK = Some 1, minScore = None,
     filters = Some \<lparr>impact_filter = Some [''HIGH'', ''CRITICAL''], protocol_filter = None,
       firm_filter = Some []\<rparr>\<rparr>"

text \<open>
  A second store: \<^verbatim>\<open>c\<close> of impact LOW with the highest similarity, \<^verbatim>\<open>a\<close>, and \<^verbatim>\<open>e\<close> of impact
  HIGH with a similarity between the default threshold and 0.8.
\<close>

definition exDocC :: IAuditFinding where
  "exDocC = exDocA\<lparr>doc_id := ''c'', finding_id := 3, finding_impact := ''LOW'',
     finding_title := ''Unused variable'', content := ''Unused variable'',
     summary := ''summary of c'', finding_source_link := ''https://example.org/3'',
     slug := ''unused-variable'', chunks := Some [exChunk ''first chunk of c'' 0]\<rparr>"

definition exDocE :: IAuditFinding where
  "exDocE = exDocA\<lparr>doc_id := ''e'', finding_id := 5,
     finding_title := ''Unchecked return value'', content := ''Unchecked return value'',
     summary := ''summary of e'', finding_source_link := ''https://example.org/5'',
     slug := ''unchecked-return-value'',
     chunks := Some [exChunk ''first chunk of e'' 0, exChunk ''second chunk of e'' 1]\<rparr>"

definition exIndexEnv :: collaborators where
  "exIndexEnv = \<lparr>generateEmbedding = (\<lambda>q. Inr [1, 0]),
     similarityIndex = (\<lambda>st. Inr (take (nat (vs_limit st))
        [(exDocC, 95/100), (exDocA, 9/10), (exDocE, 3/4)])),
     textIndex = (\<lambda>q. Inr [])\<rparr>"

definition exStrictOptions :: SearchOptions where
  "exStrictOptions = \<lparr>topK = Some 3, minScore = Some (8/10),
     filters = Some \<lparr>impact_filter = Some [''HIGH'', ''CRITICAL''], protocol_filter = None,
       firm_filter = None\<rparr>\<rparr>"

subsection \<open>Example texts\<close>

text \<open>A sentence of \<open>n\<close> one-letter words, and a section body of two such sentences.\<close>

definition exWords :: "nat \<Rightarrow> string" where
  "exWords n = joinSpace (replicate n ''w'')"

definition exBody :: string where
  "exBody = exWords 10 @ ''. '' @ exWords 390 @ ''.''"

section \<open>Properties of the fusion engine\<close>

lemma insertionOrder_alt: "insertionOrder ks = fold addKey ks []"
  by (simp add: insertionOrder_def)

lemma vectorStep_keys: "map fst (vectorStep (n, x) m) = addKey (id' x) (map fst m)"
  by (simp add: vectorStep_def addKey_def update_keys)

lemma keywordStep_keys: "map fst (keywordStep (n, x) m) = addKey (id' x) (map fst m)"
  by (auto simp: keywordStep_def addKey_def update_keys map_of_eq_None_iff
      split: option.splits dest: map_of_SomeD weak_map_of_SomeI) 

lemma fold_vectorStep_keys:
  "map fst (fold vectorStep (enumerate n xs) m) = fold addKey (map id' xs) (map fst m)"
  by (induction xs arbitrary: n m) (simp_all add: vectorStep_keys)

lemma fold_keywordStep_keys:
  "map fst (fold keywordStep (enumerate n xs) m) = fold addKey (map id' xs) (map fst m)"
  by (induction xs arbitrary: n m) (simp_all add: keywordStep_keys)

lemma buildScoreMap_keys:
  "map fst (buildScoreMap vs ks) = insertionOrder (map id' vs @ map id' ks)"
  by (simp add: buildScoreMap_def fold_keywordStep_keys fold_vectorStep_keys insertionOrder_alt)

lemma addKey_distinct: "distinct acc \<Longrightarrow> distinct (addKey k acc)"
  by (simp add: addKey_def)

lemma fold_addKey_distinct: "distinct acc \<Longrightarrow> distinct (fold addKey ks acc)"
  by (induction ks arbitrary: acc) (simp_all add: addKey_distinct)

lemma fold_addKey_set: "set (fold addKey ks acc) = set acc \<union> set ks"
  by (induction ks arbitrary: acc) (auto simp: addKey_def)

lemma fold_addKey_prefix: "prefix acc (fold addKey ks acc)"
proof (induction ks arbitrary: acc)
  case Nil
  show ?case by simp
next
  case (Cons k ks)
  have "prefix acc (addKey k acc)" by (simp add: addKey_def)
  also have "prefix (addKey k acc) (fold addKey ks (addKey k acc))" by (rule Cons.IH)
  finally show ?case by simp
qed

lemma buildScoreMap_distinct: "distinct (map fst (buildScoreMap vs ks))"
  by (simp add: buildScoreMap_keys insertionOrder_alt fold_addKey_distinct)

lemma set_update_subset: "set (AList.update k v m) \<subseteq> insert (k, v) (set m)"
  by (induction m) auto

lemma entriesOk_update: "entriesOk m \<Longrightarrow> id' r = k \<Longrightarrow> entriesOk (AList.update k (r, s) m)"
  using set_update_subset[of k "(r, s)" m] by (fastforce simp: entriesOk_def)

lemma entriesOk_vectorStep: "entriesOk m \<Longrightarrow> entriesOk (vectorStep (n, x) m)"
  by (simp add: vectorStep_def entriesOk_update)

lemma entriesOk_keywordStep: "entriesOk m \<Longrightarrow> entriesOk (keywordStep (n, x) m)"
proof (cases "map_of m (id' x)")
  case None
  assume "entriesOk m"
  with None show ?thesis by (simp add: keywordStep_def entriesOk_update)
next
  case (Some e)
  assume ok: "entriesOk m"
  obtain r s where e: "e = (r, s)" by (cases e)
  from Some e have "(id' x, r, s) \<in> set m" by (auto dest: map_of_SomeD)
  with ok have "id' r = id' x" by (auto simp: entriesOk_def)
  with ok Some e show ?thesis by (simp add: keywordStep_def entriesOk_update)
qed

lemma entriesOk_fold_vectorStep:
  "entriesOk m \<Longrightarrow> entriesOk (fold vectorStep (enumerate n xs) m)"
  by (induction xs arbitrary: n m) (simp_all add: entriesOk_vectorStep)

lemma entriesOk_fold_keywordStep:
  "entriesOk m \<Longrightarrow> entriesOk (fold keywordStep (enumerate n xs) m)"
  by (induction xs arbitrary: n m) (simp_all add: entriesOk_keywordStep)

lemma entriesOk_Nil: "entriesOk []"
  by (simp add: entriesOk_def)

lemma buildScoreMap_entriesOk: "entriesOk (buildScoreMap vs ks)"
  unfolding buildScoreMap_def
  by (intro entriesOk_fold_keywordStep entriesOk_fold_vectorStep entriesOk_Nil)

lemma insort_key_sorted_wrt:
  assumes "sorted_wrt R ys"
    and "\<And>a b. R a b \<Longrightarrow> f a \<le> f b"
    and "\<And>y. y \<in> set ys \<Longrightarrow> f x \<le> f y \<Longrightarrow> R x y"
    and "\<And>y. y \<in> set ys \<Longrightarrow> f y < f x \<Longrightarrow> R y x"
  shows "sorted_wrt R (insort_key f x ys)"
  using assms(1,3,4)
proof (induction ys)
  case Nil
  show ?case by simp
next
  case (Cons y ys)
  show ?case
  proof (cases "f x \<le> f y")
    case True
    have "R x z" if "z \<in> set (y # ys)" for z
    proof -
      have "f y \<le> f z" using that Cons.prems(1) assms(2) by auto
      with True have "f x \<le> f z" by simp
      with that show ?thesis by (rule Cons.prems(2))
    qed
    with True Cons.prems(1) show ?thesis by simp
  next
    case False
    then have "R y x" using Cons.prems(3)[of y] by simp
    moreover have "sorted_wrt R (insort_key f x ys)"
      using Cons.prems by (intro Cons.IH) auto
    ultimately show ?thesis using False Cons.prems(1) by (auto simp: set_insort_key)
  qed
qed

lemma sort_key_stable_order:
  "distinct (map g xs) \<Longrightarrow> sorted_wrt (before g f xs) (sort_key f xs)"
proof (induction xs)
  case Nil
  show ?case by simp
next
  case (Cons x xs)
  then have IH: "sorted_wrt (before g f xs) (sort_key f xs)" by simp
  have same: "before g f (x # xs) a b" if "a \<in> set xs" "b \<in> set xs" "before g f xs a b" for a b
    using that Cons.prems by (auto simp: before_def)
  have *: "sorted_wrt (before g f (x # xs)) (sort_key f xs)"
    by (rule sorted_wrt_mono_rel[OF _ IH]) (simp add: same)
  have "sorted_wrt (before g f (x # xs)) (insort_key f x (sort_key f xs))"
  proof (rule insort_key_sorted_wrt[OF *])
    show "f a \<le> f b" if "before g f (x # xs) a b" for a b
      using that by (auto simp: before_def)
    show "before g f (x # xs) x y" if "y \<in> set (sort_key f xs)" "f x \<le> f y" for y
      using that Cons.prems by (auto simp: before_def)
    show "before g f (x # xs) y x" if "y \<in> set (sort_key f xs)" "f y < f x" for y
      using that by (simp add: before_def)
  qed
  then show ?case by simp
qed

lemma sorted_wrt_slice0: "sorted_wrt R xs \<Longrightarrow> sorted_wrt R (slice0 xs n)"
proof -
  have t: "sorted_wrt R (take k xs)" if "sorted_wrt R xs" for k
    using that sorted_wrt_append[of R "take k xs" "drop k xs"] by simp
  assume "sorted_wrt R xs"
  then show ?thesis by (simp add: slice0_def t)
qed


lemma length_slice0: "0 \<le> n \<Longrightarrow> int (length (slice0 xs n)) \<le> n"
  by (simp add: slice0_def)

lemma distinct_map_slice0: "distinct (map g xs) \<Longrightarrow> distinct (map g (slice0 xs n))"
  by (simp add: slice0_def take_map[symmetric] del: take_map)

lemma distinct_map_sort_key: "distinct (map g xs) \<Longrightarrow> distinct (map g (sort_key f xs))"
  by (simp add: distinct_map)

lemma id_toResult: "id' (toResult e) = id' (fst e)"
  by (cases e) (simp add: toResult_def)

lemma score_toResult: "score (toResult e) = snd e"
  by (cases e) (simp add: toResult_def)

lemma entry_ids: "map (id' \<circ> fst) (map snd (buildScoreMap vs ks)) = map fst (buildScoreMap vs ks)"
  using buildScoreMap_entriesOk[of vs ks] by (auto simp: entriesOk_def)

lemma sorted_entries:
  "sorted_wrt (before (id' \<circ> fst) (\<lambda>item. - snd item) (map snd (buildScoreMap vs ks)))
     (slice0 (sortByRrfDesc (map snd (buildScoreMap vs ks))) n)"
  unfolding sortByRrfDesc_def
  by (intro sorted_wrt_slice0 sort_key_stable_order) (simp only: entry_ids buildScoreMap_distinct)

lemma merge_sorted:
  "sorted_wrt (fusedBefore (insertionOrder (map id' vs @ map id' ks)))
     (mergeAndRerankResults vs ks n)"
proof -
  have "sorted_wrt (\<lambda>a b. fusedBefore (map fst (buildScoreMap vs ks)) (toResult a) (toResult b))
     (slice0 (sortByRrfDesc (map snd (buildScoreMap vs ks))) n)"
    by (rule sorted_wrt_mono_rel[OF _ sorted_entries])
      (auto simp: before_def fusedBefore_def id_toResult score_toResult entry_ids
        simp del: map_map)
  then show ?thesis
    by (simp add: mergeAndRerankResults_def sorted_wrt_map buildScoreMap_keys)
qed

lemma merge_distinct: "distinct (map id' (mergeAndRerankResults vs ks n))"
proof -
  have "distinct (map (id' \<circ> fst) (slice0 (sortByRrfDesc (map snd (buildScoreMap vs ks))) n))"
    unfolding sortByRrfDesc_def
    by (intro distinct_map_slice0 distinct_map_sort_key)
      (simp only: entry_ids buildScoreMap_distinct)
  moreover have "id' \<circ> toResult = id' \<circ> fst"
    by (auto simp: id_toResult)
  ultimately show ?thesis
    by (simp add: mergeAndRerankResults_def)
qed

lemma merge_length: "0 \<le> n \<Longrightarrow> int (length (mergeAndRerankResults vs ks n)) \<le> n"
  by (simp add: mergeAndRerankResults_def length_slice0)





lemma indexOf_less_length: "indexOf xs a < length xs \<longleftrightarrow> a \<in> set xs"
  by (induction xs) auto

lemma indexOf_append: "a \<in> set xs \<Longrightarrow> indexOf (xs @ ys) a = indexOf xs a"
  by (induction xs) auto

lemma indexOf_append_notin: "a \<notin> set xs \<Longrightarrow> indexOf (xs @ ys) a = length xs + indexOf ys a"
  by (induction xs) auto

lemma insertionOrder_append_vector:
  "\<exists>rest. insertionOrder (xs @ ys) = insertionOrder xs @ rest"
  using fold_addKey_prefix[of "fold addKey xs []" ys]
  by (auto simp: insertionOrder_alt prefix_def)

lemma vector_ids_first:
  assumes "indexOf (insertionOrder (xs @ ys)) a < indexOf (insertionOrder (xs @ ys)) b"
    and "b \<in> set xs"
  shows "a \<in> set xs"
proof -
  obtain rest where r: "insertionOrder (xs @ ys) = insertionOrder xs @ rest"
    using insertionOrder_append_vector by blast
  have s: "set (insertionOrder xs) = set xs"
    by (simp add: insertionOrder_alt fold_addKey_set)
  from assms(2) s have "indexOf (insertionOrder (xs @ ys)) b < length (insertionOrder xs)"
    by (simp add: r indexOf_append indexOf_less_length)
  with assms(1) have "indexOf (insertionOrder xs @ rest) a < length (insertionOrder xs)"
    by (simp add: r)
  then have "a \<in> set (insertionOrder xs)"
    by (cases "a \<in> set (insertionOrder xs)") (simp_all add: indexOf_append_notin)
  with s show ?thesis by simp
qed

subsection \<open>The accumulated scores\<close>















subsection \<open>Values of the example scores\<close>



text \<open>
  An exact tie that the doubles break: \<open>1/72 + 1/88\<close> and \<open>1/99 + 1/66\<close> are both \<open>5/198\<close>,
  and the rounded sums are one unit in the last place apart.
\<close>

lemma exact_tie_rounds_apart:
  "(1/72 + 1/88 :: rat) = 1/99 + 1/66"
  "binary64 (rrfScore 11 + rrfScore 27) < binary64 (rrfScore 38 + rrfScore 5)"
  by code_simp+

lemmas fuse_steps = mergeAndRerankResults_def buildScoreMap_def vectorStep_def keywordStep_def
  sortByRrfDesc_def slice0_def toResult_def




lemma ex_vec_dup: "mergeAndRerankResults [exA1, exA2] [] 5 = [exA2\<lparr>score := rrfScore 1\<rparr>]"
  by (simp add: fuse_steps exA1_def exA2_def)

lemma ex_tie:
  "mergeAndRerankResults [exA1] [exB] 2 = [exA1\<lparr>score := rrfScore 0\<rparr>, exB\<lparr>score := rrfScore 0\<rparr>]"
  by (simp add: fuse_steps exA1_def exB_def)

lemma rrf_mix_order: "rrfScore (Suc 0) < binary64 (rrfScore 2 + rrfScore 0)"
    "rrfScore (Suc 0) < rrfScore 0" "rrfScore 2 < rrfScore (Suc 0)"
  by code_simp+


subsection \<open>Fused scores\<close>




subsection \<open>Order of the fused list\<close>

text \<open>
  Claim C3. The model is a function of the two lists and \<open>topK\<close>, so two runs on the same
  inputs return the same list; the theorem states what fixes the order, leaving no freedom.
  The accumulator holds its keys in the order of first insertion over the vector list followed
  by the keyword list. Of two positions \<open>i < j\<close> of the output, the earlier carries the higher
  or an equal fused score; when the scores, as the doubles the code computes, are equal, the
  document at \<open>i\<close> was inserted into the accumulator before the document at \<open>j\<close>, and so a
  document of the vector list is never preceded, among equal scores, by a document found by the
  keyword search alone.
\<close>

theorem fuse_order_fixed_by_score_then_insertion:
  assumes "i < j" and "j < length (mergeAndRerankResults vs ks n)"
  shows "map fst (buildScoreMap vs ks) = insertionOrder (map id' vs @ map id' ks)
    \<and> score (mergeAndRerankResults vs ks n ! j) \<le> score (mergeAndRerankResults vs ks n ! i)
    \<and> (score (mergeAndRerankResults vs ks n ! i) = score (mergeAndRerankResults vs ks n ! j) \<longrightarrow>
         indexOf (insertionOrder (map id' vs @ map id' ks)) (id' (mergeAndRerankResults vs ks n ! i))
           < indexOf (insertionOrder (map id' vs @ map id' ks)) (id' (mergeAndRerankResults vs ks n ! j))
         \<and> (id' (mergeAndRerankResults vs ks n ! j) \<in> id' ` set vs \<longrightarrow>
              id' (mergeAndRerankResults vs ks n ! i) \<in> id' ` set vs))"
proof -
  let ?out = "mergeAndRerankResults vs ks n"
  let ?order = "insertionOrder (map id' vs @ map id' ks)"
  from assms have b: "fusedBefore ?order (?out ! i) (?out ! j)"
    using merge_sorted[of vs ks n] by (simp add: sorted_wrt_iff_nth_less)
  then have le: "score (?out ! j) \<le> score (?out ! i)"
    by (auto simp: fusedBefore_def)
  have tie: "indexOf ?order (id' (?out ! i)) < indexOf ?order (id' (?out ! j))"
    if "score (?out ! i) = score (?out ! j)"
    using b that by (simp add: fusedBefore_def)
  have vec: "id' (?out ! i) \<in> id' ` set vs"
    if "score (?out ! i) = score (?out ! j)" "id' (?out ! j) \<in> id' ` set vs"
    using vector_ids_first[OF tie[OF that(1)]] that(2) by simp
  show ?thesis
    using le tie vec by (simp add: buildScoreMap_keys)
qed

text \<open>
  Claim C3 at a tie: \<open>a\<close> from the vector list and \<open>b\<close> from the keyword list, both at rank 0
  and both with the double \<open>1/61\<close>.
\<close>

theorem fuse_order_fixed_by_score_then_insertion_witness:
  "(0::nat) < 1 \<and> 1 < length (mergeAndRerankResults [exA1] [exB] 2)
   \<and> mergeAndRerankResults [exA1] [exB] 2
        = [exA1\<lparr>score := rrfScore 0\<rparr>, exB\<lparr>score := rrfScore 0\<rparr>]
   \<and> insertionOrder (map id' [exA1] @ map id' [exB]) = [''a'', ''b'']
   \<and> indexOf [''a'', ''b''] ''a'' < indexOf [''a'', ''b''] ''b''"
proof -
  have ord: "insertionOrder (map id' [exA1] @ map id' [exB]) = [''a'', ''b'']"
    by (simp add: insertionOrder_def addKey_def exA1_def exB_def)
  have h: "(0::nat) < 1" "1 < length (mergeAndRerankResults [exA1] [exB] 2)"
    by (simp_all add: ex_tie)
  have ids: "id' (exA1\<lparr>score := rrfScore 0\<rparr>) = ''a''" "id' (exB\<lparr>score := rrfScore 0\<rparr>) = ''b''"
    by (simp_all add: exA1_def exB_def)
  from fuse_order_fixed_by_score_then_insertion[OF h]
  have "indexOf [''a'', ''b''] ''a'' < indexOf [''a'', ''b''] ''b''"
    by (simp add: ex_tie ord ids)
  with h ex_tie ord show ?thesis by simp
qed

subsection \<open>Truncation and uniqueness\<close>

text \<open>
  Claim C4. For a result count \<open>topK \<ge> 0\<close> (the options require \<open>topK \<ge> 1\<close>) the fused
  list has at most \<open>topK\<close> entries, and for every \<open>topK\<close> no two entries share a document
  identifier.
\<close>

theorem fuse_truncates_and_dedups:
  "(0 \<le> n \<longrightarrow> int (length (mergeAndRerankResults vs ks n)) \<le> n)
   \<and> distinct (map id' (mergeAndRerankResults vs ks n))"
  by (simp add: merge_length merge_distinct)

text \<open>Claim C4 at lists with repeated identifiers and \<open>topK = 2\<close>.\<close>

theorem fuse_truncates_and_dedups_witness:
  "(0::int) \<le> 2 \<and> int (length (mergeAndRerankResults [exA1, exA2, exB] [exB, exD1] 2)) \<le> 2
   \<and> distinct (map id' (mergeAndRerankResults [exA1, exA2, exB] [exB, exD1] 2))
   \<and> mergeAndRerankResults [exA1, exA2, exB] [exB, exD1] 2
        = [exB\<lparr>score := binary64 (rrfScore 2 + rrfScore 0)\<rparr>, exA2\<lparr>score := rrfScore 1\<rparr>]"
proof -
  have "mergeAndRerankResults [exA1, exA2, exB] [exB, exD1] 2
        = [exB\<lparr>score := binary64 (rrfScore 2 + rrfScore 0)\<rparr>, exA2\<lparr>score := rrfScore 1\<rparr>]"
    using rrf_mix_order
    by (simp add: fuse_steps exA1_def exA2_def exB_def exD1_def not_le[symmetric] eval_nat_numeral)
  with fuse_truncates_and_dedups[of 2 "[exA1, exA2, exB]" "[exB, exD1]"]
  show ?thesis by simp
qed

subsection \<open>Payload of a fused result\<close>

text \<open>
  Claim C5 at two candidates of one document in the vector list. The vector loop calls
  \<^verbatim>\<open>scoreMap.set\<close> without testing \<^verbatim>\<open>scoreMap.has\<close>, so the second candidate replaces the
  first: the result carries the text of the last-seen candidate and the score of its rank
  alone, the double \<open>1/62\<close>. The keyword loop, which tests \<^verbatim>\<open>has\<close>, keeps the first-seen
  candidate and adds up the scores.
\<close>

theorem fuse_vector_duplicate_keeps_last_candidate:
  "mergeAndRerankResults [exA1, exA2] [] 5 = [exA2\<lparr>score := rrfScore 1\<rparr>]
   \<and> rrfScore 1 = binary64 (1/62)
   \<and> id' exA1 = id' exA2
   \<and> text' (hd (mergeAndRerankResults [exA1, exA2] [] 5)) = ''second chunk of a''
   \<and> text' exA1 = ''first chunk of a''
   \<and> mergeAndRerankResults [] [exA1, exA2] 5
        = [exA1\<lparr>score := binary64 (rrfScore 0 + rrfScore 1)\<rparr>]"
proof -
  have "mergeAndRerankResults [] [exA1, exA2] 5 = [exA1\<lparr>score := binary64 (rrfScore 0 + rrfScore 1)\<rparr>]"
    by (simp add: fuse_steps exA1_def exA2_def)
  moreover have "rrfScore 1 = binary64 (1/62)"
    by (simp add: rrfScore_def rrf_k_def)
  ultimately show ?thesis
    by (simp add: ex_vec_dup) (simp add: exA1_def exA2_def)
qed

section \<open>Properties of the retrievers and the orchestrator\<close>

lemmas retrieval_eval = search_def keywordSearch_def hybridSearch_def topKOf_def minScoreOf_def
  filtersOf_def vectorPostProcess_def vectorSearchRequest_def keywordLimited_def unwind_def
  unwindOne_def runStages_def buildFilterStages_def hasLength_def inAllowList_def
  matchConditions_def sortRowsDesc_def sortDocsDesc_def projectVector_def projectKeyword_def
  parentMetadata_def expandedTopK_def

lemmas example_store = exEnv_def exIndexEnv_def exOptions_def exStrictOptions_def exDocA_def
  exDocB_def exDocC_def exDocE_def exChunk_def exMeta_def exA1_def exA2_def







lemma search_Inr:
  assumes "search env q options = Inr rs"
  shows "\<exists>qe docs. generateEmbedding env q = Inr qe \<and> 0 < topKOf options
    \<and> similarityIndex env (vectorSearchRequest qe (topKOf options)) = Inr docs
    \<and> rs = vectorPostProcess (topKOf options) (minScoreOf options) (filtersOf options) docs"
  using assms by (auto simp: search_def Let_def split: sum.splits if_splits)


subsection \<open>Vector retriever\<close>


lemma ex_search: "search exEnv ''q'' exOptions = Inr [exA1]"
  by (simp add: retrieval_eval example_store)

lemma ex_search2:
  "search exEnv ''q'' (exOptions\<lparr>topK := Some 2\<rparr>) = Inr [exA1, exA2\<lparr>score := 9/10\<rparr>]"
  by (simp add: retrieval_eval example_store)





subsection \<open>Keyword retriever\<close>

lemma binary64_three_halves: "binary64 (3/2) = 3/2"
  by code_simp

lemma ex_keywordSearch:
  "keywordSearch exEnv ''q'' exOptions = Inr [exA1\<lparr>score := 3/2\<rparr>, exA2\<lparr>score := 3/2\<rparr>]"
  by (simp add: retrieval_eval example_store binary64_three_halves)

text \<open>
  Claim C7 at a store whose text index matches the document \<open>a\<close>, of impact HIGH with two
  chunks and the native score 15, and the document \<open>b\<close> of impact LOW, with \<open>topK = 1\<close> and
  the allow-list HIGH, CRITICAL. \<^verbatim>\<open>$limit: topK\<close> stands before \<^verbatim>\<open>$unwind\<close> in the pipeline of
  \<^verbatim>\<open>keywordSearch\<close>, so it bounds the matched documents and every chunk of such a document is
  returned: the list has two entries, each with the score \<open>15 / 10\<close>. On the same store and
  options \<^verbatim>\<open>search\<close>, whose \<^verbatim>\<open>$limit: topK\<close> is the last stage, returns one entry.
\<close>

theorem keyword_search_returns_more_than_topK:
  "keywordSearch exEnv ''q'' exOptions = Inr [exA1\<lparr>score := 3/2\<rparr>, exA2\<lparr>score := 3/2\<rparr>]
   \<and> topK exOptions = Some 1
   \<and> textIndex exEnv ''q'' = Inr [(exDocB, 3), (exDocA, 15)]
   \<and> chunks exDocA = Some [exChunk ''first chunk of a'' 0, exChunk ''second chunk of a'' 1]
   \<and> length [exA1\<lparr>score := 3/2\<rparr>, exA2\<lparr>score := 3/2\<rparr>] = 2
   \<and> search exEnv ''q'' exOptions = Inr [exA1]"
  by (simp add: ex_keywordSearch ex_search) (simp add: exOptions_def exEnv_def exDocA_def)

subsection \<open>Orchestrator\<close>

lemma expandedTopK_pos: "0 < expandedTopK k \<Longrightarrow> 0 < k"
proof (rule ccontr)
  assume e: "0 < expandedTopK k" and "\<not> 0 < k"
  then have "of_int k * (3/2 :: rat) \<le> 0"
    by (simp add: mult_le_0_iff)
  then have "expandedTopK k \<le> 0"
    unfolding expandedTopK_def by (simp add: ceiling_le_zero)
  with e show False by simp
qed

lemma expandedTopK_div: "expandedTopK k = - (- (3 * k) div 2)"
proof -
  have "of_int k * (3/2 :: rat) = of_int (3 * k) / of_int 2" by simp
  then show ?thesis
    unfolding expandedTopK_def by (simp only: ceiling_divide_eq_div)
qed

lemma hybridSearch_Inr:
  "hybridSearch env q options = Inr rs \<longleftrightarrow>
     (\<exists>vectorResults keywordResults.
        search env q (options\<lparr>topK := Some (expandedTopK (topKOf options))\<rparr>) = Inr vectorResults
        \<and> keywordSearch env q options = Inr keywordResults
        \<and> rs = mergeAndRerankResults vectorResults keywordResults (topKOf options))"
  by (auto simp: hybridSearch_def Let_def split: sum.splits)

text \<open>
  Claim C2. \<^verbatim>\<open>hybridSearch\<close> returns a list exactly when the vector search, run on the
  caller's options with \<open>topK\<close> replaced by \<open>\<lceil>topK \<times> 1.5\<rceil>\<close>, and the keyword search, run on
  the caller's own options, both return; the list is then the fusion of the two lists at the
  caller's \<open>topK\<close> and has at most \<open>topK\<close> entries. Replacing \<open>topK\<close> leaves \<open>minScore\<close> and
  the filters as the caller gave them, and the default \<open>topK\<close> is 5.
\<close>

theorem hybrid_search_composition:
  "(hybridSearch env q options = Inr rs \<longleftrightarrow>
     (\<exists>vectorResults keywordResults.
        search env q (options\<lparr>topK := Some \<lceil>of_int (topKOf options) * (3/2 :: rat)\<rceil>\<rparr>)
          = Inr vectorResults
        \<and> keywordSearch env q options = Inr keywordResults
        \<and> rs = mergeAndRerankResults vectorResults keywordResults (topKOf options)))
   \<and> (hybridSearch env q options = Inr rs \<longrightarrow> int (length rs) \<le> topKOf options)
   \<and> topKOf (options\<lparr>topK := Some k'\<rparr>) = k'
   \<and> minScoreOf (options\<lparr>topK := Some k'\<rparr>) = minScoreOf options
   \<and> filtersOf (options\<lparr>topK := Some k'\<rparr>) = filtersOf options
   \<and> topKOf (options\<lparr>topK := None\<rparr>) = 5"
proof -
  have len: "int (length rs) \<le> topKOf options" if h: "hybridSearch env q options = Inr rs"
  proof -
    from h obtain vr kr
      where v: "search env q (options\<lparr>topK := Some (expandedTopK (topKOf options))\<rparr>) = Inr vr"
        and rs: "rs = mergeAndRerankResults vr kr (topKOf options)"
      unfolding hybridSearch_Inr by blast
    from search_Inr[OF v] have "0 < expandedTopK (topKOf options)"
      by (auto simp: topKOf_def)
    then have "0 < topKOf options" by (rule expandedTopK_pos)
    then show ?thesis by (simp add: rs merge_length)
  qed
  show ?thesis
    using len by (simp add: hybridSearch_Inr expandedTopK_def topKOf_def minScoreOf_def filtersOf_def)
qed

lemma ex_hybridSearch:
  "hybridSearch exEnv ''q'' exOptions
     = Inr [exA2\<lparr>score := binary64 (binary64 (rrfScore 1 + rrfScore 0) + rrfScore 1)\<rparr>]"
proof -
  have e: "expandedTopK (topKOf exOptions) = 2"
    by (simp add: expandedTopK_div topKOf_def exOptions_def)
  have m: "mergeAndRerankResults [exA1, exA2\<lparr>score := 9/10\<rparr>]
      [exA1\<lparr>score := 3/2\<rparr>, exA2\<lparr>score := 3/2\<rparr>] 1
        = [exA2\<lparr>score := binary64 (binary64 (rrfScore 1 + rrfScore 0) + rrfScore 1)\<rparr>]"
    by (simp add: fuse_steps exA1_def exA2_def)
  have k: "topKOf exOptions = 1"
    by (simp add: topKOf_def exOptions_def)
  show ?thesis
    unfolding hybridSearch_Inr e using ex_search2 ex_keywordSearch m k by simp
qed

text \<open>
  Claim C2 at the example store with \<open>topK = 1\<close>: the vector search runs with \<open>topK = 2\<close> and
  returns the two chunks of \<open>a\<close>, the keyword search returns the same two chunks, and the
  fusion at \<open>topK = 1\<close> returns one entry for \<open>a\<close>.
\<close>

theorem hybrid_search_composition_witness:
  "hybridSearch exEnv ''q'' exOptions
     = Inr [exA2\<lparr>score := binary64 (binary64 (rrfScore 1 + rrfScore 0) + rrfScore 1)\<rparr>]
   \<and> \<lceil>of_int (topKOf exOptions) * (3/2 :: rat)\<rceil> = 2
   \<and> search exEnv ''q'' (exOptions\<lparr>topK := Some 2\<rparr>) = Inr [exA1, exA2\<lparr>score := 9/10\<rparr>]
   \<and> keywordSearch exEnv ''q'' exOptions = Inr [exA1\<lparr>score := 3/2\<rparr>, exA2\<lparr>score := 3/2\<rparr>]
   \<and> int (length [exA2\<lparr>score := binary64 (binary64 (rrfScore 1 + rrfScore 0) + rrfScore 1)\<rparr>])
        \<le> topKOf exOptions"
proof -
  have e: "\<lceil>of_int (topKOf exOptions) * (3/2 :: rat)\<rceil> = 2"
    using expandedTopK_div[of "topKOf exOptions"]
    by (simp add: expandedTopK_def topKOf_def exOptions_def)
  from hybrid_search_composition[of exEnv "''q''" exOptions
      "[exA2\<lparr>score := binary64 (binary64 (rrfScore 1 + rrfScore 0) + rrfScore 1)\<rparr>]" 2]
    ex_hybridSearch
  have "int (length [exA2\<lparr>score := binary64 (binary64 (rrfScore 1 + rrfScore 0) + rrfScore 1)\<rparr>])
      \<le> topKOf exOptions"
    by blast
  with e ex_hybridSearch ex_search2 ex_keywordSearch show ?thesis by simp
qed

section \<open>Properties of the chunker\<close>

subsection \<open>The overlap\<close>

lemma overlapLoop_takes:
  "\<exists>taken left. xs = taken @ left \<and> overlapLoop xs n ov = rev taken @ ov
     \<and> (taken \<noteq> [] \<longrightarrow> n + tokenSum taken \<le> chunkOverlap)
     \<and> (left = [] \<or> chunkOverlap < n + tokenSum taken + estimateTokens (hd left))"
proof (induction xs arbitrary: n ov)
  case Nil
  show ?case by (simp add: tokenSum_def)
next
  case (Cons x xs)
  show ?case
  proof (cases "n + estimateTokens x > chunkOverlap")
    case True
    then have "x # xs = [] @ (x # xs) \<and> overlapLoop (x # xs) n ov = rev [] @ ov
       \<and> ([] \<noteq> [] \<longrightarrow> n + tokenSum [] \<le> chunkOverlap)
       \<and> (x # xs = [] \<or> chunkOverlap < n + tokenSum [] + estimateTokens (hd (x # xs)))"
      by (simp add: tokenSum_def)
    then show ?thesis by blast
  next
    case False
    from Cons.IH[of "n + estimateTokens x" "x # ov"] obtain taken left
      where t: "xs = taken @ left"
        "overlapLoop xs (n + estimateTokens x) (x # ov) = rev taken @ x # ov"
        "taken \<noteq> [] \<longrightarrow> n + estimateTokens x + tokenSum taken \<le> chunkOverlap"
        "left = [] \<or> chunkOverlap < n + estimateTokens x + tokenSum taken + estimateTokens (hd left)"
      by blast
    have "x # xs = (x # taken) @ left \<and> overlapLoop (x # xs) n ov = rev (x # taken) @ ov
       \<and> (x # taken \<noteq> [] \<longrightarrow> n + tokenSum (x # taken) \<le> chunkOverlap)
       \<and> (left = [] \<or> chunkOverlap < n + tokenSum (x # taken) + estimateTokens (hd left))"
      using t False by (cases "taken = []") (auto simp: tokenSum_def Let_def)
    then show ?thesis by blast
  qed
qed

lemma getOverlapSentences_cases:
  "\<exists>pre. sentences = pre @ getOverlapSentences sentences
     \<and> tokenSum (getOverlapSentences sentences) \<le> chunkOverlap
     \<and> (pre = [] \<or> chunkOverlap < tokenSum (last pre # getOverlapSentences sentences))"
proof -
  from overlapLoop_takes[of "rev sentences" 0 "[]"] obtain taken left
    where t0: "rev sentences = taken @ left"
      "overlapLoop (rev sentences) 0 [] = rev taken @ []"
      "taken \<noteq> [] \<longrightarrow> 0 + tokenSum taken \<le> chunkOverlap"
      "left = [] \<or> chunkOverlap < 0 + tokenSum taken + estimateTokens (hd left)"
    by blast
  have t: "rev sentences = taken @ left"
      "getOverlapSentences sentences = rev taken"
      "taken \<noteq> [] \<longrightarrow> tokenSum taken \<le> chunkOverlap"
      "left = [] \<or> chunkOverlap < tokenSum taken + estimateTokens (hd left)"
    using t0 by (simp_all add: getOverlapSentences_def)
  have "rev (rev sentences) = rev (taken @ left)"
    by (simp only: t(1))
  then have s: "sentences = rev left @ rev taken"
    by simp
  have sum: "tokenSum (rev taken) = tokenSum taken"
    by (simp add: tokenSum_def rev_map[symmetric])
  have budget: "tokenSum (rev taken) \<le> chunkOverlap"
    using t(3) by (cases "taken = []") (simp_all add: sum, simp add: tokenSum_def)
  have more: "rev left = [] \<or> chunkOverlap < tokenSum (last (rev left) # rev taken)"
    using t(4) sum by (cases left) (auto simp: tokenSum_def)
  show ?thesis
    unfolding t(2)
  proof (intro exI[of _ "rev left"] conjI)
    show "sentences = rev left @ rev taken" by (rule s)
    show "tokenSum (rev taken) \<le> chunkOverlap" by (rule budget)
    show "rev left = [] \<or> chunkOverlap < tokenSum (last (rev left) # rev taken)" by (rule more)
  qed
qed

lemma getOverlapSentences_suffix: "suffix (getOverlapSentences sentences) sentences"
  using getOverlapSentences_cases[of sentences] by (auto simp: suffix_def)

lemma getOverlapSentences_budget: "tokenSum (getOverlapSentences sentences) \<le> chunkOverlap"
  using getOverlapSentences_cases[of sentences] by blast

subsection \<open>Chunks as groups of sentences\<close>

lemma chunkLoop_groupLoop:
  "chunkLoop ss (map joinSpace groups) cur n = map joinSpace (groupLoop ss groups cur n)"
proof (induction ss arbitrary: groups cur n)
  case Nil
  show ?case by simp
next
  case (Cons s ss)
  show ?case
    using Cons.IH[of "groups @ [cur]"] Cons.IH[of groups]
    by (simp add: Let_def)
qed

lemma chunkText_groups: "chunkText t = map joinSpace (chunkGroups (splitIntoSentences t))"
  using chunkLoop_groupLoop[of "splitIntoSentences t" "[]" "[]" 0]
  by (simp add: chunkText_def chunkGroups_def)

lemma groupLoop_overflow:
  assumes "maxChunkSize < n + estimateTokens s" and "cur \<noteq> []"
  shows "groupLoop (s # ss) groups cur n =
     groupLoop ss (groups @ [cur]) (getOverlapSentences cur @ [s])
       (estimateTokens (joinSpace (getOverlapSentences cur)) + estimateTokens s)"
proof -
  from assms have c: "(n + estimateTokens s > maxChunkSize \<and> length cur > 0) = True"
    by simp
  show ?thesis
    by (subst groupLoop.simps) (simp only: Let_def c if_True)
qed

lemma groupLoop_extend:
  assumes "\<not> (maxChunkSize < n + estimateTokens s \<and> cur \<noteq> [])"
  shows "groupLoop (s # ss) groups cur n = groupLoop ss groups (cur @ [s]) (n + estimateTokens s)"
proof -
  from assms have c: "(n + estimateTokens s > maxChunkSize \<and> length cur > 0) = False"
    by simp
  show ?thesis
    by (subst groupLoop.simps) (simp only: Let_def c if_False)
qed

lemma groupLoop_Nil:
  "groupLoop [] groups cur n = (if cur = [] then groups else groups @ [cur])"
  by simp

declare groupLoop.simps [simp del]

lemma successively_snoc:
  "successively R (xs @ [y]) \<longleftrightarrow> successively R xs \<and> (xs = [] \<or> R (last xs) y)"
  by (simp add: successively_append_iff)

lemma groupLoop_follows:
  assumes "successively follows groups" and "groups = [] \<or> follows (last groups) cur"
  shows "successively follows (groupLoop ss groups cur n)"
  using assms
proof (induction ss arbitrary: groups cur n)
  case Nil
  then show ?case
    by (simp add: groupLoop_Nil successively_snoc)
next
  case (Cons s ss)
  show ?case
  proof (cases "maxChunkSize < n + estimateTokens s \<and> cur \<noteq> []")
    case True
    have "successively follows (groups @ [cur])"
      using Cons.prems by (simp add: successively_snoc)
    moreover have "follows (last (groups @ [cur])) (getOverlapSentences cur @ [s])"
      by (simp add: follows_def)
    ultimately have "successively follows (groupLoop ss (groups @ [cur])
        (getOverlapSentences cur @ [s]) (estimateTokens (joinSpace (getOverlapSentences cur)) + estimateTokens s))"
      by (intro Cons.IH) simp_all
    moreover from True have "groupLoop (s # ss) groups cur n =
        groupLoop ss (groups @ [cur]) (getOverlapSentences cur @ [s])
          (estimateTokens (joinSpace (getOverlapSentences cur)) + estimateTokens s)"
      by (intro groupLoop_overflow) simp_all
    ultimately show ?thesis by (simp only:)
  next
    case False
    have "follows g (cur @ [s])" if "follows g cur" for g
    proof -
      from that obtain new where "new \<noteq> []" "cur = getOverlapSentences g @ new"
        unfolding follows_def by blast
      then have "new @ [s] \<noteq> [] \<and> cur @ [s] = getOverlapSentences g @ (new @ [s])"
        by simp
      then show ?thesis unfolding follows_def by blast
    qed
    with Cons.prems(2) have "groups = [] \<or> follows (last groups) (cur @ [s])"
      by blast
    with Cons.prems(1) have "successively follows (groupLoop ss groups (cur @ [s]) (n + estimateTokens s))"
      by (intro Cons.IH)
    then show ?thesis by (simp only: groupLoop_extend[OF False])
  qed
qed

lemma chunkGroups_follows: "successively follows (chunkGroups ss)"
  unfolding chunkGroups_def by (rule groupLoop_follows) simp_all

lemma successively_nth:
  "successively R xs \<Longrightarrow> Suc i < length xs \<Longrightarrow> R (xs ! i) (xs ! Suc i)"
proof (induction xs arbitrary: i)
  case Nil
  then show ?case by simp
next
  case (Cons x xs)
  show ?case
  proof (cases i)
    case 0
    with Cons.prems show ?thesis
      by (cases xs) simp_all
  next
    case (Suc j)
    with Cons.prems have "successively R xs" "Suc j < length xs"
      by (auto simp: successively_Cons)
    then have "R (xs ! j) (xs ! Suc j)" by (rule Cons.IH)
    with Suc show ?thesis by simp
  qed
qed

lemma follows_nonempty: "follows g h \<Longrightarrow> h \<noteq> []"
  by (auto simp: follows_def)

lemma follows_snoc: "follows g cur \<Longrightarrow> follows g (cur @ [s])"
proof -
  assume "follows g cur"
  then obtain new where "new \<noteq> []" "cur = getOverlapSentences g @ new"
    unfolding follows_def by blast
  then have "new @ [s] \<noteq> [] \<and> cur @ [s] = getOverlapSentences g @ (new @ [s])"
    by simp
  then show ?thesis unfolding follows_def by blast
qed

lemma follows_overlap: "follows cur (getOverlapSentences cur @ [s])"
  by (simp add: follows_def)

lemma follows_drop:
  "follows g cur \<Longrightarrow>
   drop (length (getOverlapSentences g)) (cur @ [s]) = drop (length (getOverlapSentences g)) cur @ [s]"
  by (auto simp: follows_def)

lemma newSentences_snoc:
  "newSentences prev (gs @ [c]) =
     newSentences prev gs @ drop (length (getOverlapSentences (last (prev # gs)))) c"
  by (induction gs arbitrary: prev) simp_all

lemma withoutOverlap_snoc:
  "groups \<noteq> [] \<Longrightarrow>
   withoutOverlap (groups @ [c]) =
     withoutOverlap groups @ drop (length (getOverlapSentences (last groups))) c"
  by (cases groups) (simp_all add: withoutOverlap_def newSentences_snoc)

lemma groupLoop_withoutOverlap:
  assumes "groups = [] \<or> follows (last groups) cur"
  shows "withoutOverlap (groupLoop ss groups cur n)
    = withoutOverlap (if cur = [] then groups else groups @ [cur]) @ ss"
  using assms
proof (induction ss arbitrary: groups cur n)
  case Nil
  show ?case by (simp only: groupLoop_Nil append_Nil2)
next
  case (Cons s ss)
  show ?case
  proof (cases "maxChunkSize < n + estimateTokens s \<and> cur \<noteq> []")
    case True
    then have eq: "groupLoop (s # ss) groups cur n =
        groupLoop ss (groups @ [cur]) (getOverlapSentences cur @ [s])
          (estimateTokens (joinSpace (getOverlapSentences cur)) + estimateTokens s)"
      by (intro groupLoop_overflow) simp_all
    have "groups @ [cur] = [] \<or> follows (last (groups @ [cur])) (getOverlapSentences cur @ [s])"
      by (simp add: follows_overlap)
    from Cons.IH[OF this]
    have "withoutOverlap (groupLoop (s # ss) groups cur n)
        = withoutOverlap ((groups @ [cur]) @ [getOverlapSentences cur @ [s]]) @ ss"
      by (simp add: eq)
    also have "withoutOverlap ((groups @ [cur]) @ [getOverlapSentences cur @ [s]])
        = withoutOverlap (groups @ [cur]) @ [s]"
      by (subst withoutOverlap_snoc) simp_all
    finally show ?thesis using True by simp
  next
    case False
    have inv: "groups = [] \<or> follows (last groups) (cur @ [s])"
      using Cons.prems follows_snoc by blast
    from Cons.IH[OF inv]
    have "withoutOverlap (groupLoop (s # ss) groups cur n)
        = withoutOverlap (groups @ [cur @ [s]]) @ ss"
      by (simp add: groupLoop_extend[OF False])
    also have "withoutOverlap (groups @ [cur @ [s]])
        = withoutOverlap (if cur = [] then groups else groups @ [cur]) @ [s]"
    proof (cases "groups = []")
      case True
      then show ?thesis by (simp add: withoutOverlap_def)
    next
      case False
      with Cons.prems have f: "follows (last groups) cur" by simp
      then have "cur \<noteq> []" by (rule follows_nonempty)
      have "withoutOverlap (groups @ [cur @ [s]])
          = withoutOverlap groups @ drop (length (getOverlapSentences (last groups))) (cur @ [s])"
        using False by (rule withoutOverlap_snoc)
      also have "\<dots> = (withoutOverlap groups
          @ drop (length (getOverlapSentences (last groups))) cur) @ [s]"
        by (simp only: follows_drop[OF f] append_assoc)
      also have "withoutOverlap groups @ drop (length (getOverlapSentences (last groups))) cur
          = withoutOverlap (groups @ [cur])"
        using False by (rule withoutOverlap_snoc[symmetric])
      finally show ?thesis using \<open>cur \<noteq> []\<close> by simp
    qed
    finally show ?thesis by simp
  qed
qed

lemma chunkGroups_withoutOverlap: "withoutOverlap (chunkGroups ss) = ss"
  using groupLoop_withoutOverlap[of "[]" "[]" ss 0]
  by (simp add: chunkGroups_def withoutOverlap_def)

lemma groupLoop_sublist:
  assumes "suffix cur p" and "\<forall>g \<in> set groups. g \<noteq> [] \<and> sublist g p"
  shows "\<forall>g \<in> set (groupLoop ss groups cur n). g \<noteq> [] \<and> sublist g (p @ ss)"
  using assms
proof (induction ss arbitrary: groups cur n p)
  case Nil
  show ?case
  proof (cases "cur = []")
    case True
    with Nil.prems(2) show ?thesis by (simp add: groupLoop_Nil)
  next
    case False
    moreover from Nil.prems(1) have "sublist cur p" by (rule suffix_imp_sublist)
    ultimately show ?thesis using Nil.prems(2) by (simp add: groupLoop_Nil)
  qed
next
  case (Cons s ss)
  have grow: "sublist g (p @ [s])" if "sublist g p" for g
  proof -
    from that obtain ps ss' where "p = ps @ g @ ss'" by (auto simp: sublist_def)
    then have "p @ [s] = ps @ g @ (ss' @ [s])" by simp
    then show ?thesis unfolding sublist_def by blast
  qed
  have p: "p @ s # ss = (p @ [s]) @ ss" by simp
  show ?case
  proof (cases "maxChunkSize < n + estimateTokens s \<and> cur \<noteq> []")
    case True
    then have eq: "groupLoop (s # ss) groups cur n =
        groupLoop ss (groups @ [cur]) (getOverlapSentences cur @ [s])
          (estimateTokens (joinSpace (getOverlapSentences cur)) + estimateTokens s)"
      by (intro groupLoop_overflow) simp_all
    have "suffix (getOverlapSentences cur) p"
      using getOverlapSentences_suffix Cons.prems(1) by (rule suffix_order.trans)
    then have 1: "suffix (getOverlapSentences cur @ [s]) (p @ [s])" by simp
    have 2: "\<forall>g \<in> set (groups @ [cur]). g \<noteq> [] \<and> sublist g (p @ [s])"
      using Cons.prems True grow by auto
    show ?thesis
      unfolding eq p by (rule Cons.IH[OF 1 2])
  next
    case False
    have 1: "suffix (cur @ [s]) (p @ [s])" using Cons.prems(1) by simp
    have 2: "\<forall>g \<in> set groups. g \<noteq> [] \<and> sublist g (p @ [s])"
      using Cons.prems(2) grow by auto
    show ?thesis
      unfolding groupLoop_extend[OF False] p by (rule Cons.IH[OF 1 2])
  qed
qed

lemma chunkGroups_sublist: "g \<in> set (chunkGroups ss) \<Longrightarrow> g \<noteq> [] \<and> sublist g ss"
  using groupLoop_sublist[of "[]" "[]" "[]" ss 0] by (simp add: chunkGroups_def)

lemma chunkGroups_covers:
  assumes "s \<in> set ss"
  shows "\<exists>g \<in> set (chunkGroups ss). s \<in> set g"
proof -
  have "set (withoutOverlap gs) \<subseteq> \<Union> (set ` set gs)" for gs
  proof -
    have "set (newSentences prev hs) \<subseteq> \<Union> (set ` set hs)" for prev hs
      by (induction hs arbitrary: prev) (auto dest: in_set_dropD)
    then show ?thesis
      by (cases gs) (auto simp: withoutOverlap_def)
  qed
  from this[of "chunkGroups ss"] assms show ?thesis
    by (auto simp: chunkGroups_withoutOverlap)
qed

subsection \<open>Counting words\<close>

lemma splitRuns_nonempty: "splitRuns P s \<noteq> []"
  by (induction s) (auto split: list.splits)

lemma length_splitRuns_Cons:
  "length (splitRuns P (x # xs)) =
     (if P x then (if xs \<noteq> [] \<and> P (hd xs) then length (splitRuns P xs)
                   else Suc (length (splitRuns P xs)))
      else length (splitRuns P xs))"
  using splitRuns_nonempty[of P xs] by (auto split: list.splits)

lemma length_splitRuns_append_sep:
  assumes "a \<noteq> []" and "\<not> P (last a)" and "b \<noteq> []" and "\<not> P (hd b)" and "P c"
  shows "length (splitRuns P (a @ c # b)) = length (splitRuns P a) + length (splitRuns P b)"
  using assms(1,2)
proof (induction a)
  case Nil
  then show ?case by simp
next
  case (Cons x a)
  show ?case
  proof (cases "a = []")
    case True
    with Cons.prems have "\<not> P x" by simp
    with True assms(3,4,5) show ?thesis
      by (simp add: length_splitRuns_Cons del: splitRuns.simps) simp
  next
    case False
    with Cons.prems have "\<not> P (last a)" by simp
    with False have IH: "length (splitRuns P (a @ c # b)) = length (splitRuns P a) + length (splitRuns P b)"
      by (rule Cons.IH)
    have hd: "hd (a @ c # b) = hd a" using False by simp
    have ne: "a @ c # b \<noteq> []" by simp
    have "length (splitRuns P ((x # a) @ c # b)) =
        (if P x then (if P (hd a) then length (splitRuns P (a @ c # b))
                      else Suc (length (splitRuns P (a @ c # b))))
         else length (splitRuns P (a @ c # b)))"
      by (simp only: append_Cons length_splitRuns_Cons hd ne not_False_eq_True simp_thms)
    moreover have "length (splitRuns P (x # a)) =
        (if P x then (if P (hd a) then length (splitRuns P a) else Suc (length (splitRuns P a)))
         else length (splitRuns P a))"
      using False by (simp only: length_splitRuns_Cons not_False_eq_True simp_thms)
    ultimately show ?thesis by (simp add: IH)
  qed
qed

lemma isSpace_space: "isSpace (CHR '' '')"
  by (simp add: isSpace_def)

lemma joinSpace_Cons: "g \<noteq> [] \<Longrightarrow> joinSpace (s # g) = s @ CHR '' '' # joinSpace g"
  by (cases g) simp_all

lemma clean_joinSpace:
  "g \<noteq> [] \<Longrightarrow> \<forall>s \<in> set g. clean s \<Longrightarrow>
   clean (joinSpace g)
   \<and> length (splitRuns isSpace (joinSpace g)) = sum_list (map (\<lambda>s. length (splitRuns isSpace s)) g)"
proof (induction g)
  case Nil
  then show ?case by simp
next
  case (Cons s g)
  show ?case
  proof (cases "g = []")
    case True
    with Cons.prems show ?thesis by simp
  next
    case False
    with Cons have IH: "clean (joinSpace g)"
      "length (splitRuns isSpace (joinSpace g)) = sum_list (map (\<lambda>s. length (splitRuns isSpace s)) g)"
      by simp_all
    from Cons.prems have s: "clean s" by simp
    have j: "joinSpace (s # g) = s @ CHR '' '' # joinSpace g"
      using False by (rule joinSpace_Cons)
    have "clean (s @ CHR '' '' # joinSpace g)"
      using s IH(1) by (simp add: clean_def)
    moreover have "length (splitRuns isSpace (s @ CHR '' '' # joinSpace g))
        = length (splitRuns isSpace s) + length (splitRuns isSpace (joinSpace g))"
      using s IH(1) isSpace_space by (intro length_splitRuns_append_sep) (simp_all add: clean_def)
    ultimately show ?thesis by (simp add: j IH(2))
  qed
qed

lemma estimateTokens_mono:
  "length (splitRuns isSpace a) \<le> length (splitRuns isSpace b) \<Longrightarrow> estimateTokens a \<le> estimateTokens b"
  unfolding estimateTokens_def
  by (intro nat_mono ceiling_mono mult_right_mono) simp_all

lemma estimateTokens_member:
  assumes "s \<in> set g" and "\<forall>s \<in> set g. clean s"
  shows "estimateTokens s \<le> estimateTokens (joinSpace g)"
proof -
  from assms(1) have "g \<noteq> []" by auto
  with assms(2) have "length (splitRuns isSpace (joinSpace g))
      = sum_list (map (\<lambda>s. length (splitRuns isSpace s)) g)"
    using clean_joinSpace by blast
  moreover have "length (splitRuns isSpace s) \<le> sum_list (map (\<lambda>s. length (splitRuns isSpace s)) g)"
    using assms(1) by (simp add: member_le_sum_list)
  ultimately show ?thesis by (intro estimateTokens_mono) simp
qed

lemma estimateTokens_empty: "estimateTokens [] = 2"
proof -
  have "\<lceil>13 / 10 :: rat\<rceil> = 2" by (rule ceiling_unique) simp_all
  then show ?thesis by (simp add: estimateTokens_def)
qed

lemma estimateTokens_add:
  "nat \<lceil>of_nat (a + b) * (13/10 :: rat)\<rceil>
     \<le> nat \<lceil>of_nat a * (13/10 :: rat)\<rceil> + nat \<lceil>of_nat b * (13/10 :: rat)\<rceil>"
proof -
  have "of_nat (a + b) * (13/10 :: rat) = of_nat a * (13/10) + of_nat b * (13/10)"
    by (simp add: distrib_right)
  then have "\<lceil>of_nat (a + b) * (13/10 :: rat)\<rceil> = \<lceil>of_nat a * (13/10 :: rat) + of_nat b * (13/10)\<rceil>"
    by (simp only:)
  also have "\<dots> \<le> \<lceil>of_nat a * (13/10 :: rat)\<rceil> + \<lceil>of_nat b * (13/10 :: rat)\<rceil>"
    by (rule ceiling_add_le)
  finally show ?thesis
    by (simp add: nat_le_iff nat_add_distrib[symmetric] del: of_nat_add)
qed

lemma estimateTokens_joinSpace_le:
  "\<forall>s \<in> set g. clean s \<Longrightarrow> g \<noteq> [] \<Longrightarrow> estimateTokens (joinSpace g) \<le> tokenSum g"
proof (induction g)
  case Nil
  then show ?case by simp
next
  case (Cons s g)
  show ?case
  proof (cases "g = []")
    case True
    then show ?thesis by (simp add: tokenSum_def)
  next
    case False
    with Cons have IH: "estimateTokens (joinSpace g) \<le> tokenSum g" by simp
    from Cons.prems False have c: "clean s" "clean (joinSpace g)"
      using clean_joinSpace[of g] by simp_all
    have "length (splitRuns isSpace (joinSpace (s # g)))
        = length (splitRuns isSpace s) + length (splitRuns isSpace (joinSpace g))"
      unfolding joinSpace_Cons[OF False]
      using c isSpace_space by (intro length_splitRuns_append_sep) (simp_all add: clean_def)
    then have "estimateTokens (joinSpace (s # g)) \<le> estimateTokens s + estimateTokens (joinSpace g)"
      unfolding estimateTokens_def by (simp only: estimateTokens_add)
    with IH show ?thesis by (simp add: tokenSum_def)
  qed
qed

lemma clean_trim: "trim s \<noteq> [] \<Longrightarrow> clean (trim s)"
proof -
  assume ne: "trim s \<noteq> []"
  let ?a = "dropWhile isSpace s"
  let ?b = "dropWhile isSpace (rev ?a)"
  have t: "trim s = rev ?b" by (simp add: trim_def)
  from ne t have b: "?b \<noteq> []" by simp
  then have "\<not> isSpace (hd ?b)" by (rule hd_dropWhile)
  then have last: "\<not> isSpace (last (trim s))"
    using b by (simp add: t last_rev)
  from b have a: "?a \<noteq> []" by (cases "?a = []") simp_all
  then have hda: "\<not> isSpace (hd ?a)" by (rule hd_dropWhile)
  define k where "k = length ?a - length (takeWhile isSpace (rev ?a))"
  have "?b = drop (length (takeWhile isSpace (rev ?a))) (rev ?a)"
    by (rule dropWhile_eq_drop)
  then have tk: "trim s = take k ?a"
    by (simp add: t k_def rev_drop)
  with ne have "0 < k" by (cases k) simp_all
  then have "hd (take k ?a) = hd ?a" by (rule hd_take)
  with hda have "\<not> isSpace (hd (trim s))" unfolding tk by simp
  with last ne show ?thesis unfolding clean_def by blast
qed

lemma splitIntoSentences_clean: "s \<in> set (splitIntoSentences t) \<Longrightarrow> clean s"
  by (auto simp: splitIntoSentences_def clean_trim)

subsection \<open>The chunks of a document\<close>

lemma stripHeader_pushed:
  "stripHeader f \<lparr>chunk_text = enrichChunkContext c f name, chunk_index = i,
      chunk_metadata = parentMetadata f name\<rparr> = c"
  by (simp add: stripHeader_def enrichChunkContext_def parentMetadata_def)

lemma fold_pushChunk:
  "map chunk_index (fold (pushChunk f name) cs acc)
     = map chunk_index acc @ [length acc ..< length acc + length cs]
   \<and> map (stripHeader f) (fold (pushChunk f name) cs acc) = map (stripHeader f) acc @ cs
   \<and> length (fold (pushChunk f name) cs acc) = length acc + length cs"
proof (induction cs arbitrary: acc)
  case Nil
  show ?case by simp
next
  case (Cons c cs)
  let ?a = "pushChunk f name c acc"
  have la: "length ?a = Suc (length acc)"
    by (simp add: pushChunk_def)
  have u: "[length acc ..< length acc + length (c # cs)]
      = length acc # [Suc (length acc) ..< Suc (length acc) + length cs]"
    by (subst upt_conv_Cons) simp_all
  have ci: "map chunk_index ?a = map chunk_index acc @ [length acc]"
    by (simp add: pushChunk_def)
  have sh: "map (stripHeader f) ?a = map (stripHeader f) acc @ [c]"
    by (simp add: pushChunk_def stripHeader_pushed)
  from Cons.IH[of ?a] show ?case
    unfolding fold_simps la ci sh u by simp
qed

lemma fold_processSection:
  assumes "map chunk_index acc = [0 ..< length acc]"
  shows "map chunk_index (fold (processSection f) secs acc)
       = [0 ..< length (fold (processSection f) secs acc)]
     \<and> map (stripHeader f) (fold (processSection f) secs acc)
       = map (stripHeader f) acc @ concat (map (\<lambda>(name, body). chunkText body) secs)"
  using assms
proof (induction secs arbitrary: acc)
  case Nil
  then show ?case by simp
next
  case (Cons sec secs)
  obtain name body where sec: "sec = (name, body)" by (cases sec)
  let ?acc = "fold (pushChunk f name) (chunkText body) acc"
  have "map chunk_index ?acc = [0 ..< length acc] @ [length acc ..< length acc + length (chunkText body)]"
    using fold_pushChunk[of f name "chunkText body" acc] Cons.prems by simp
  also have "\<dots> = [0 ..< length acc + length (chunkText body)]"
    by (simp add: upt_add_eq_append[symmetric])
  finally have "map chunk_index ?acc = [0 ..< length ?acc]"
    using fold_pushChunk[of f name "chunkText body" acc] by simp
  from Cons.IH[OF this] show ?case
    using fold_pushChunk[of f name "chunkText body" acc]
    by (simp add: sec processSection_def)
qed

lemma processAuditFinding_chunks:
  "map chunk_index (processAuditFinding f) = [0 ..< length (processAuditFinding f)]
   \<and> map (stripHeader f) (processAuditFinding f)
       = concat (map (\<lambda>(name, body). chunkText body) (extractSections (content f)))"
  using fold_processSection[of "[]" f "extractSections (content f)"]
  by (simp add: processAuditFinding_def)

subsection \<open>Coverage of the section bodies\<close>

text \<open>
  Claim C8, as stated, fails: \<^verbatim>\<open>split(/[.!?]+/)\<close> returns the pieces between the runs of
  terminal punctuation and not the punctuation, so the chunk bodies of a document never hold
  the full stops, exclamation marks and question marks of its section bodies. The section body
  \<^verbatim>\<open>Reentrancy found. Fix it.\<close> gives the single chunk body \<^verbatim>\<open>Reentrancy found Fix it\<close>.
\<close>

theorem chunks_claim_counterexample:
  "extractSections (content exDocA) = [(''content'', ''Reentrancy found. Fix it.'')]
   \<and> map (stripHeader exDocA) (processAuditFinding exDocA) = [''Reentrancy found Fix it'']
   \<and> CHR ''.'' \<in> set ''Reentrancy found. Fix it.''
   \<and> CHR ''.'' \<notin> set (concat (map (stripHeader exDocA) (processAuditFinding exDocA)))"
  by code_simp

text \<open>
  Claim C8, amended. The chunks of a document carry the indices \<open>0, 1, \<dots>\<close> in order, and
  with the headers stripped they are the chunk bodies of the document's sections, section after
  section. The chunk bodies of a section body are the joins, by single spaces, of groups of its
  sentences (the trimmed, non-empty pieces between runs of terminal punctuation; punctuation
  and the white space around a sentence are not kept). Each group after the first starts with
  the overlap of the group before it and goes on with at least one further sentence, and the
  groups with these overlaps removed are exactly the sentences of the section body, in order:
  no sentence is missing, and only the overlap is repeated.
\<close>

theorem chunks_cover_sentences:
  "map chunk_index (processAuditFinding f) = [0 ..< length (processAuditFinding f)]
   \<and> map (stripHeader f) (processAuditFinding f)
       = concat (map (\<lambda>(name, body). chunkText body) (extractSections (content f)))
   \<and> chunkText body = map joinSpace (chunkGroups (splitIntoSentences body))
   \<and> withoutOverlap (chunkGroups (splitIntoSentences body)) = splitIntoSentences body
   \<and> successively follows (chunkGroups (splitIntoSentences body))"
  using processAuditFinding_chunks[of f]
  by (simp add: chunkText_groups chunkGroups_withoutOverlap chunkGroups_follows)

lemma ex_sentences: "splitIntoSentences exBody = [exWords 10, exWords 390]"
  by code_simp

lemma ex_groups: "chunkGroups [exWords 10, exWords 390] = [[exWords 10], [exWords 10, exWords 390]]"
  by code_simp

text \<open>The amended claim C8 at the example document and at the example section body.\<close>

theorem chunks_cover_sentences_witness:
  "map (stripHeader exDocA) (processAuditFinding exDocA) = [''Reentrancy found Fix it'']
   \<and> map chunk_index (processAuditFinding exDocA) = [0]
   \<and> chunkText exBody = [exWords 10, joinSpace [exWords 10, exWords 390]]
   \<and> withoutOverlap [[exWords 10], [exWords 10, exWords 390]] = [exWords 10, exWords 390]
   \<and> successively follows [[exWords 10], [exWords 10, exWords 390]]"
proof -
  have s: "map (stripHeader exDocA) (processAuditFinding exDocA) = [''Reentrancy found Fix it'']"
    by code_simp
  then have "length (processAuditFinding exDocA) = 1"
    using length_map[of "stripHeader exDocA" "processAuditFinding exDocA"] by simp
  with chunks_cover_sentences[of exDocA exBody] s show ?thesis
    by (simp add: ex_sentences ex_groups)
qed

subsection \<open>The overlap between consecutive chunks\<close>

lemma chunkGroups_clean:
  assumes "g \<in> set (chunkGroups (splitIntoSentences body))" and "s \<in> set g"
  shows "clean s"
proof -
  from assms(1) have "sublist g (splitIntoSentences body)"
    using chunkGroups_sublist by blast
  then have "set g \<subseteq> set (splitIntoSentences body)"
    by (auto simp: sublist_def)
  with assms(2) show ?thesis
    using splitIntoSentences_clean by blast
qed

text \<open>
  Claim C9. The chunk bodies of a section body are the joins of its groups of sentences. For
  two consecutive groups, the overlap that \<^verbatim>\<open>getOverlapSentences\<close> selects from the earlier
  one is a suffix of it and the start of the later one, which goes on with at least one new
  sentence; the estimates of its sentences add up to at most the budget of 50, and so does the
  estimate of their join; and it was taken from the end backward until the budget would be
  exceeded: it is the whole earlier group, or the sentence before it would bring the sum above
  50.
\<close>

theorem overlap_within_budget:
  assumes "Suc i < length (chunkGroups (splitIntoSentences body))"
  shows "chunkText body = map joinSpace (chunkGroups (splitIntoSentences body))
    \<and> (let g = chunkGroups (splitIntoSentences body) ! i;
            h = chunkGroups (splitIntoSentences body) ! Suc i;
            ov = getOverlapSentences g
        in suffix ov g
           \<and> (\<exists>new. new \<noteq> [] \<and> h = ov @ new)
           \<and> tokenSum ov \<le> chunkOverlap
           \<and> estimateTokens (joinSpace ov) \<le> chunkOverlap
           \<and> (ov = g \<or> (\<exists>pre s. g = pre @ s # ov \<and> chunkOverlap < tokenSum (s # ov))))
    \<and> chunkOverlap = 50"
proof -
  let ?gs = "chunkGroups (splitIntoSentences body)"
  let ?g = "?gs ! i"
  let ?ov = "getOverlapSentences ?g"
  from assms have mem: "?g \<in> set ?gs" by simp
  have fol: "follows ?g (?gs ! Suc i)"
    using chunkGroups_follows assms by (rule successively_nth)
  then have new: "\<exists>new. new \<noteq> [] \<and> ?gs ! Suc i = ?ov @ new"
    by (simp add: follows_def)
  obtain pre where pre: "?g = pre @ ?ov"
    "pre = [] \<or> chunkOverlap < tokenSum (last pre # ?ov)"
    using getOverlapSentences_cases[of ?g] by blast
  have max: "?ov = ?g \<or> (\<exists>pre s. ?g = pre @ s # ?ov \<and> chunkOverlap < tokenSum (s # ?ov))"
  proof (cases "pre = []")
    case True
    with pre(1) show ?thesis by simp
  next
    case False
    then have "pre = butlast pre @ [last pre]" by simp
    with pre(1) have "?g = butlast pre @ last pre # ?ov"
      by (metis append.assoc append_Cons append_Nil)
    with pre(2) False show ?thesis by blast
  qed
  have joined: "estimateTokens (joinSpace ?ov) \<le> chunkOverlap"
  proof (cases "?ov = []")
    case True
    then show ?thesis by (simp add: estimateTokens_empty chunkOverlap_def)
  next
    case False
    have "set ?ov \<subseteq> set ?g"
      using getOverlapSentences_suffix[of ?g] by (rule set_mono_suffix)
    then have "\<forall>s \<in> set ?ov. clean s"
      using chunkGroups_clean[OF mem] by blast
    then have "estimateTokens (joinSpace ?ov) \<le> tokenSum ?ov"
      using False by (rule estimateTokens_joinSpace_le)
    with getOverlapSentences_budget[of ?g] show ?thesis by simp
  qed
  show ?thesis
    unfolding Let_def
    using chunkText_groups[of body] getOverlapSentences_suffix[of ?g] new
      getOverlapSentences_budget[of ?g] joined max
    by (simp add: chunkOverlap_def)
qed

text \<open>Claim C9 at the example section body, whose two chunks share the first sentence.\<close>

theorem overlap_within_budget_witness:
  "Suc 0 < length (chunkGroups (splitIntoSentences exBody))
   \<and> chunkGroups (splitIntoSentences exBody) = [[exWords 10], [exWords 10, exWords 390]]
   \<and> getOverlapSentences [exWords 10] = [exWords 10]
   \<and> tokenSum [exWords 10] \<le> chunkOverlap
   \<and> estimateTokens (joinSpace [exWords 10]) \<le> chunkOverlap"
proof -
  have gs: "chunkGroups (splitIntoSentences exBody) = [[exWords 10], [exWords 10, exWords 390]]"
    by (simp add: ex_sentences ex_groups)
  have h: "Suc 0 < length (chunkGroups (splitIntoSentences exBody))"
    by (simp add: gs)
  have ov: "getOverlapSentences [exWords 10] = [exWords 10]"
    by code_simp
  from overlap_within_budget[OF h]
  have "tokenSum [exWords 10] \<le> chunkOverlap"
    "estimateTokens (joinSpace [exWords 10]) \<le> chunkOverlap"
    by (simp_all add: Let_def gs ov)
  with h gs ov show ?thesis by simp
qed

subsection \<open>Whole sentences and the chunk size\<close>

text \<open>
  Claim C10. Every chunk body is the join, by single spaces, of a non-empty run of consecutive
  sentences of the section body. A sentence whose estimate exceeds the maximum of 512 is still
  inside some chunk as a whole, and the estimate of that chunk exceeds 512.
\<close>

theorem sentences_never_split:
  "(\<forall>c \<in> set (chunkText body).
      \<exists>g. g \<noteq> [] \<and> sublist g (splitIntoSentences body) \<and> c = joinSpace g)
   \<and> (\<forall>s \<in> set (splitIntoSentences body). maxChunkSize < estimateTokens s \<longrightarrow>
        (\<exists>g. sublist g (splitIntoSentences body) \<and> s \<in> set g
             \<and> joinSpace g \<in> set (chunkText body)
             \<and> maxChunkSize < estimateTokens (joinSpace g)))
   \<and> maxChunkSize = 512"
proof (intro conjI ballI impI)
  fix c
  assume "c \<in> set (chunkText body)"
  then obtain g where "g \<in> set (chunkGroups (splitIntoSentences body))" "c = joinSpace g"
    by (auto simp: chunkText_groups)
  then show "\<exists>g. g \<noteq> [] \<and> sublist g (splitIntoSentences body) \<and> c = joinSpace g"
    using chunkGroups_sublist by blast
next
  fix s
  assume s: "s \<in> set (splitIntoSentences body)" and big: "maxChunkSize < estimateTokens s"
  from chunkGroups_covers[OF s] obtain g
    where g: "g \<in> set (chunkGroups (splitIntoSentences body))" "s \<in> set g"
    by blast
  have "\<forall>s \<in> set g. clean s"
    using chunkGroups_clean[OF g(1)] by blast
  with g(2) have "estimateTokens s \<le> estimateTokens (joinSpace g)"
    by (rule estimateTokens_member)
  with big have "maxChunkSize < estimateTokens (joinSpace g)" by simp
  moreover have "joinSpace g \<in> set (chunkText body)"
    using g(1) by (simp add: chunkText_groups)
  moreover have "sublist g (splitIntoSentences body)"
    using chunkGroups_sublist[OF g(1)] by simp
  ultimately show "\<exists>g. sublist g (splitIntoSentences body) \<and> s \<in> set g
      \<and> joinSpace g \<in> set (chunkText body) \<and> maxChunkSize < estimateTokens (joinSpace g)"
    using g(2) by blast
next
  show "maxChunkSize = 512" by (simp add: maxChunkSize_def)
qed

text \<open>
  Claim C10 at a sentence of 394 words, whose estimate is \<open>\<lceil>394 \<times> 1.3\<rceil> = 513\<close>: it is emitted as
  one chunk.
\<close>

theorem sentences_never_split_witness:
  "splitIntoSentences (exWords 394 @ ''.'') = [exWords 394]
   \<and> estimateTokens (exWords 394) = 513
   \<and> maxChunkSize < estimateTokens (exWords 394)
   \<and> chunkText (exWords 394 @ ''.'') = [exWords 394]
   \<and> (\<exists>g. sublist g [exWords 394] \<and> exWords 394 \<in> set g
         \<and> joinSpace g \<in> set (chunkText (exWords 394 @ ''.''))
         \<and> maxChunkSize < estimateTokens (joinSpace g))"
proof -
  have s: "splitIntoSentences (exWords 394 @ ''.'') = [exWords 394]"
    by code_simp
  have e: "estimateTokens (exWords 394) = 513"
    by code_simp
  have c: "chunkText (exWords 394 @ ''.'') = [exWords 394]"
    by code_simp
  have big: "maxChunkSize < estimateTokens (exWords 394)"
    by (simp add: e maxChunkSize_def)
  from sentences_never_split[of "exWords 394 @ ''.''"] big
  have "\<exists>g. sublist g [exWords 394] \<and> exWords 394 \<in> set g
         \<and> joinSpace g \<in> set (chunkText (exWords 394 @ ''.''))
         \<and> maxChunkSize < estimateTokens (joinSpace g)"
    unfolding s by simp
  with s e c big show ?thesis by blast
qed

end
